theory Spec2Isabelle
  imports Complex_Main "HOL-Library.Word"
begin

unbundle bit_operations_syntax

section \<open>Common data model\<close>

text \<open>
  \<^verbatim>\<open>xgboost::detail::GradientPairInternal<FPType>\<close>: a (gradient, hessian) pair.  The
  floating-point type \<open>FPType\<close> is the type parameter \<open>'a\<close>, with its own \<open>0\<close>, \<open>+\<close> and \<open>-\<close>:
  the operations on pairs are componentwise and assume no law of them.  Where \<open>'a\<close> is a
  commutative monoid, so are the pairs.
\<close>

datatype 'a GradientPairInternal = GradientPairInternal (GetGrad: 'a) (GetHess: 'a)

instantiation GradientPairInternal :: (zero) zero
begin
definition zero_GradientPairInternal :: "'a GradientPairInternal" where
  "zero_GradientPairInternal = GradientPairInternal 0 0"
instance ..
end

instantiation GradientPairInternal :: (plus) plus
begin
definition plus_GradientPairInternal ::
  "'a GradientPairInternal \<Rightarrow> 'a GradientPairInternal \<Rightarrow> 'a GradientPairInternal" where
  "plus_GradientPairInternal p q =
     GradientPairInternal (GetGrad p + GetGrad q) (GetHess p + GetHess q)"
instance ..
end

instantiation GradientPairInternal :: (minus) minus
begin
definition minus_GradientPairInternal ::
  "'a GradientPairInternal \<Rightarrow> 'a GradientPairInternal \<Rightarrow> 'a GradientPairInternal" where
  "minus_GradientPairInternal p q =
     GradientPairInternal (GetGrad p - GetGrad q) (GetHess p - GetHess q)"
instance ..
end

instance GradientPairInternal :: (comm_monoid_add) comm_monoid_add
  by standard
    (simp_all add: plus_GradientPairInternal_def zero_GradientPairInternal_def ac_simps)

text \<open>
  Failures of the code are values: an access outside an allocation (undefined behaviour
  in C++), a failed \<^verbatim>\<open>CHECK\<close> (which aborts the operation), a division by zero, a
  failure reported by the collective, and a row position that is no position of the node's
  rows any more once it is stored in an \<^verbatim>\<open>int\<close>.
\<close>

datatype error = OutOfBounds | CheckFailed | DivideByZero | CollectiveFailure | IndexOverflow

text \<open>A sequential \<^verbatim>\<open>for\<close> loop over a list of indices whose body may fail.\<close>

fun forM :: "'x list \<Rightarrow> ('x \<Rightarrow> 's \<Rightarrow> error + 's) \<Rightarrow> 's \<Rightarrow> error + 's" where
  "forM [] body s = Inr s"
| "forM (x # xs) body s = (case body x s of Inl e \<Rightarrow> Inl e | Inr s' \<Rightarrow> forM xs body s')"

section \<open>Histogram store (plugin/sycl/common/hist_util.cc)\<close>

text \<open>
  A histogram \<^verbatim>\<open>GHistRow<FPType>\<close> is a list of pairs.  The kernels that
  \<^verbatim>\<open>reinterpret_cast\<close> it to \<^verbatim>\<open>FPType*\<close> see the flat array in which element \<open>2 * k\<close>
  is the gradient and element \<open>2 * k + 1\<close> the hessian of pair \<open>k\<close>; \<open>flat_read\<close> and
  \<open>flat_write\<close> are that view, with the bounds of the allocation checked.
\<close>

definition flat_read :: "'a GradientPairInternal list \<Rightarrow> nat \<Rightarrow> error + 'a" where
  "flat_read h i =
     (if i div 2 < length h
      then Inr (if even i then GetGrad (h ! (i div 2)) else GetHess (h ! (i div 2)))
      else Inl OutOfBounds)"

definition flat_write ::
  "'a GradientPairInternal list \<Rightarrow> nat \<Rightarrow> 'a \<Rightarrow> error + 'a GradientPairInternal list" where
  "flat_write h i v =
     (if i div 2 < length h
      then Inr (h[i div 2 :=
                  (if even i then GradientPairInternal v (GetHess (h ! (i div 2)))
                   else GradientPairInternal (GetGrad (h ! (i div 2))) v)])
      else Inl OutOfBounds)"

text \<open>
  \<^verbatim>\<open>SubtractionHist\<close>: \<^verbatim>\<open>parallel_for\<close> over \<open>2 * size\<close> work items, item \<open>i\<close> executing
  \<^verbatim>\<open>pdst[i] = psrc1[i] - psrc2[i]\<close>.  The work items touch pairwise different elements,
  so they are run here in index order.  The destination is a buffer of its own (the
  sources are not aliased by it).
\<close>

definition SubtractionHist ::
  "'a::minus GradientPairInternal list \<Rightarrow> 'a GradientPairInternal list \<Rightarrow>
   'a GradientPairInternal list \<Rightarrow> nat \<Rightarrow> error + 'a GradientPairInternal list" where
  "SubtractionHist dst src1 src2 n_size =
     forM [0..<2 * n_size]
       (\<lambda>i pdst.
          case flat_read src1 i of Inl e \<Rightarrow> Inl e
          | Inr a \<Rightarrow>
              (case flat_read src2 i of Inl e \<Rightarrow> Inl e
               | Inr b \<Rightarrow> flat_write pdst i (a - b)))
       dst"

text \<open>\<^verbatim>\<open>GHistBuilder::SubtractionTrick\<close>, with its two \<^verbatim>\<open>CHECK_EQ\<close>.\<close>

definition SubtractionTrick ::
  "'a::minus GradientPairInternal list \<Rightarrow> 'a GradientPairInternal list \<Rightarrow>
   'a GradientPairInternal list \<Rightarrow> error + 'a GradientPairInternal list" where
  "SubtractionTrick self sibling parent =
     (let n_size = length self in
      if length sibling \<noteq> n_size then Inl CheckFailed
      else if length parent \<noteq> n_size then Inl CheckFailed
      else SubtractionHist self parent sibling n_size)"


section \<open>Binned matrix and dispatcher configuration\<close>

text \<open>
  \<^verbatim>\<open>BinTypeSize\<close>: the three widths in which bin indices are stored.  The
  \<^verbatim>\<open>default: CHECK(false)\<close> branch of the switch over it is unreachable for a value of
  the enumeration and has no counterpart here.
\<close>

datatype BinTypeSize = kUint8BinsTypeSize | kUint16BinsTypeSize | kUint32BinsTypeSize

text \<open>
  The fields of \<^verbatim>\<open>GHistIndexMatrix\<close> that the device kernels read.  The class itself
  (plugin/sycl/data/gradient_index.h) is not among the sources, so its two device
  arrays are taken as parameters: \<open>index_data gmat bt k\<close> is the value of
  \<^verbatim>\<open>static_cast<uint32_t>(gmat.index.data<T>()[k])\<close> for the unsigned type \<open>T\<close> of width
  \<open>bt\<close>, and \<open>cut_ptrs gmat k\<close> is \<^verbatim>\<open>gmat.cut.cut_ptrs_.ConstDevicePointer()[k]\<close>.
  Device pointers to read-only input carry no extent; reads through them are total.
\<close>

record GHistIndexMatrix =
  nfeatures :: nat
  row_stride :: nat
  nbins :: nat
  max_num_bins :: nat
  min_num_bins :: nat
  GetBinTypeSize :: BinTypeSize
  index_data :: "BinTypeSize \<Rightarrow> nat \<Rightarrow> 32 word"
  cut_ptrs :: "nat \<Rightarrow> 32 word"

text \<open>
  The configuration computed by \<^verbatim>\<open>tree::HistDispatcher<FPType>\<close>
  (\<open>block_size\<close> is \<^verbatim>\<open>block.size\<close>, \<open>block_nblocks\<close> is \<^verbatim>\<open>block.nblocks\<close>).  Its
  constructor is not among the sources and is a parameter of the dispatch below.
\<close>

record HistDispatcher =
  work_group_size :: nat
  block_size :: nat
  block_nblocks :: nat
  use_local_hist :: bool
  use_atomics :: bool

section \<open>Checked accesses to histogram storage\<close>

definition load :: "'a list \<Rightarrow> nat \<Rightarrow> error + 'a" where
  "load h k = (if k < length h then Inr (h ! k) else Inl OutOfBounds)"

definition store :: "'a list \<Rightarrow> nat \<Rightarrow> 'a \<Rightarrow> error + 'a list" where
  "store h k v = (if k < length h then Inr (h[k := v]) else Inl OutOfBounds)"

text \<open>\<^verbatim>\<open>h[k] += p\<close>\<close>

definition accumulate :: "'a::plus list \<Rightarrow> nat \<Rightarrow> 'a \<Rightarrow> error + 'a list" where
  "accumulate h k p = (if k < length h then Inr (h[k := h ! k + p]) else Inl OutOfBounds)"

text \<open>\<^verbatim>\<open>qu->fill(ptr, v, n)\<close>\<close>

definition fill :: "'a list \<Rightarrow> 'a \<Rightarrow> nat \<Rightarrow> error + 'a list" where
  "fill h v n = forM [0..<n] (\<lambda>i h. store h i v) h"

text \<open>\<^verbatim>\<open>qu->fill\<close> through the \<^verbatim>\<open>FPType*\<close> view, and the update of an \<^verbatim>\<open>AtomicRef\<close>.\<close>

definition flat_fill ::
  "'a GradientPairInternal list \<Rightarrow> 'a \<Rightarrow> nat \<Rightarrow> error + 'a GradientPairInternal list" where
  "flat_fill h v n = forM [0..<n] (\<lambda>i h. flat_write h i v) h"

definition flat_add ::
  "'a::plus GradientPairInternal list \<Rightarrow> nat \<Rightarrow> 'a \<Rightarrow> error + 'a GradientPairInternal list" where
  "flat_add h i v = (case flat_read h i of Inl e \<Rightarrow> Inl e | Inr x \<Rightarrow> flat_write h i (x + v))"

text \<open>
  The gradient pairs seen through \<^verbatim>\<open>reinterpret_cast<const GradientPair::ValueT*>\<close>.
\<close>

definition pgh_flat :: "(nat \<Rightarrow> 'a GradientPairInternal) \<Rightarrow> nat \<Rightarrow> 'a" where
  "pgh_flat pgh k = (if even k then GetGrad (pgh (k div 2)) else GetHess (pgh (k div 2)))"

section \<open>Device kernels (plugin/sycl/common/hist_util.cc)\<close>

text \<open>
  A kernel launched over a two-dimensional range is run here one work item after the
  other, in the lexicographic order of the global ids.  The additions of \<open>FPType\<close> are
  its own and may round, so the order of the additions shows in the result: the statements
  on the built histograms are about the additions in this order.
\<close>

definition work_items :: "nat \<Rightarrow> nat \<Rightarrow> (nat \<times> nat) list" where
  "work_items n0 n1 = List.product [0..<n0] [0..<n1]"

text \<open>
  The indices visited by \<^verbatim>\<open>for (j = feat; j < n_columns; j += work_group_size)\<close>.  A
  lane has \<open>feat < work_group_size\<close>, so the step is positive wherever a lane runs.
\<close>

function strided :: "nat \<Rightarrow> nat \<Rightarrow> nat \<Rightarrow> nat list" where
  "strided j n step = (if j < n \<and> 0 < step then j # strided (j + step) n step else [])"
  by pat_completeness auto
termination
  by (relation "measure (\<lambda>(j, n, step). n - j)") auto

declare strided.simps [simp del]

definition n_columns :: "bool \<Rightarrow> GHistIndexMatrix \<Rightarrow> nat" where
  "n_columns isDense gmat = (if isDense then nfeatures gmat else row_stride gmat)"

text \<open>
  \<^verbatim>\<open>uint32_t idx_bin = static_cast<uint32_t>(gr_index_local[j]);
  if constexpr (isDense) { idx_bin += offsets[j]; }\<close>
\<close>

definition bin_index :: "bool \<Rightarrow> BinTypeSize \<Rightarrow> GHistIndexMatrix \<Rightarrow> nat \<Rightarrow> nat \<Rightarrow> 32 word" where
  "bin_index isDense bt gmat icol_start j =
     (let idx_bin = index_data gmat bt (icol_start + j)
      in if isDense then idx_bin + cut_ptrs gmat j else idx_bin)"

text \<open>\<^verbatim>\<open>ReduceHist\<close>: work item \<open>idx_bin\<close> sums its column of the scratch.\<close>

definition ReduceHist ::
  "'a::{zero,plus} list \<Rightarrow> 'a list \<Rightarrow> nat \<Rightarrow> nat \<Rightarrow> error + 'a list" where
  "ReduceHist hist_data hist_buffer_data n_blocks n_bins =
     forM [0..<n_bins]
       (\<lambda>idx_bin hist_data.
          case forM [0..<n_blocks]
                 (\<lambda>j gpair.
                    case load hist_buffer_data (j * n_bins + idx_bin) of
                      Inl e \<Rightarrow> Inl e
                    | Inr v \<Rightarrow> Inr (gpair + v))
                 0 of
            Inl e \<Rightarrow> Inl e
          | Inr gpair \<Rightarrow> store hist_data idx_bin gpair)
       hist_data"

text \<open>
  The work item \<open>(block, feat)\<close> of the kernel "with buffer using".  The barrier orders
  the lanes of a group and has no effect on a sequential run.
\<close>

definition BuildHistKernel_buffer_item ::
  "bool \<Rightarrow> BinTypeSize \<Rightarrow> (nat \<Rightarrow> 'a::{zero,plus} GradientPairInternal) \<Rightarrow> nat list \<Rightarrow>
   GHistIndexMatrix \<Rightarrow> HistDispatcher \<Rightarrow> nat \<Rightarrow> nat \<Rightarrow>
   'a GradientPairInternal list \<Rightarrow> error + 'a GradientPairInternal list" where
  "BuildHistKernel_buffer_item isDense bt pgh rid gmat dispatcher block feat hist_buffer_data =
     forM [0..<block_size dispatcher]
       (\<lambda>idx buf.
          let i = block * block_size dispatcher + idx in
          if i < length rid then
            let icol_start = n_columns isDense gmat * rid ! i;
                idx_gh = rid ! i;
                pgh_row = pgh idx_gh
            in forM (strided feat (n_columns isDense gmat) (work_group_size dispatcher))
                 (\<lambda>j buf.
                    let idx_bin = bin_index isDense bt gmat icol_start j in
                    if unat idx_bin < nbins gmat
                    then accumulate buf (block * nbins gmat + unat idx_bin) pgh_row
                    else Inr buf)
                 buf
          else Inr buf)
       hist_buffer_data"

text \<open>
  \<^verbatim>\<open>BuildHistKernel\<close>, the overload with \<^verbatim>\<open>hist_buffer\<close>: fill, main kernel,
  \<^verbatim>\<open>ReduceHist\<close>.  The result is the histogram and the scratch.
\<close>

definition BuildHistKernel_buffer ::
  "bool \<Rightarrow> BinTypeSize \<Rightarrow> (nat \<Rightarrow> 'a::{zero,plus} GradientPairInternal) \<Rightarrow> nat list \<Rightarrow>
   GHistIndexMatrix \<Rightarrow> 'a GradientPairInternal list \<Rightarrow> 'a GradientPairInternal list \<Rightarrow>
   HistDispatcher \<Rightarrow> error + ('a GradientPairInternal list \<times> 'a GradientPairInternal list)" where
  "BuildHistKernel_buffer isDense bt pgh rid gmat hist hist_buffer dispatcher =
     (case fill hist_buffer 0 (block_nblocks dispatcher * nbins gmat) of
        Inl e \<Rightarrow> Inl e
      | Inr buf0 \<Rightarrow>
          (case forM (work_items (block_nblocks dispatcher) (work_group_size dispatcher))
                  (\<lambda>(block, feat).
                     BuildHistKernel_buffer_item isDense bt pgh rid gmat dispatcher block feat)
                  buf0 of
             Inl e \<Rightarrow> Inl e
           | Inr buf1 \<Rightarrow>
               (case ReduceHist hist buf1 (block_nblocks dispatcher) (nbins gmat) of
                  Inl e \<Rightarrow> Inl e
                | Inr h \<Rightarrow> Inr (h, buf1))))"

text \<open>
  The body of the loop over \<open>fid\<close> in a work item \<open>(block, feat)\<close> of
  \<^verbatim>\<open>BuildHistKernelLocal\<close>: zero the bins of the feature in \<open>hist_fast\<close>, add the rows of
  the block, copy the bins into the slice of the block.  The counter \<^verbatim>\<open>int bin\<close> is
  compared with a \<^verbatim>\<open>size_t\<close> and added to a \<^verbatim>\<open>uint32_t\<close>: the sum \<^verbatim>\<open>bin + offsets[fid]\<close> is
  taken in 32 bits.
\<close>

definition BuildHistKernelLocal_feature ::
  "BinTypeSize \<Rightarrow> (nat \<Rightarrow> 'a::{zero,plus} GradientPairInternal) \<Rightarrow> nat list \<Rightarrow>
   GHistIndexMatrix \<Rightarrow> HistDispatcher \<Rightarrow> nat \<Rightarrow> nat \<Rightarrow>
   'a GradientPairInternal list \<times> 'a GradientPairInternal list \<Rightarrow>
   error + ('a GradientPairInternal list \<times> 'a GradientPairInternal list)" where
  "BuildHistKernelLocal_feature bt pgh rid gmat dispatcher block fid state =
     (case state of
        (hist_fast, buf) \<Rightarrow>
          let n_bins_feature = unat (cut_ptrs gmat (fid + 1) - cut_ptrs gmat fid) in
          case forM [0..<n_bins_feature] (\<lambda>bin hf. store hf bin 0) hist_fast of
            Inl e \<Rightarrow> Inl e
          | Inr hf1 \<Rightarrow>
              (case forM [0..<block_size dispatcher]
                      (\<lambda>idx hf.
                         let i = block * block_size dispatcher + idx in
                         if i < length rid then
                           let row_id = rid ! i;
                               icol_start = nfeatures gmat * row_id;
                               pgh_row = pgh row_id;
                               idx_bin = index_data gmat bt (icol_start + fid)
                           in accumulate hf (unat idx_bin) pgh_row
                         else Inr hf)
                      hf1 of
                 Inl e \<Rightarrow> Inl e
               | Inr hf2 \<Rightarrow>
                   (case forM [0..<n_bins_feature]
                           (\<lambda>bin buf.
                              case load hf2 bin of
                                Inl e \<Rightarrow> Inl e
                              | Inr v \<Rightarrow>
                                  store buf
                                    (block * nbins gmat
                                     + unat (word_of_nat bin + cut_ptrs gmat fid))
                                    v)
                           buf of
                      Inl e \<Rightarrow> Inl e
                    | Inr buf' \<Rightarrow> Inr (hf2, buf'))))"

text \<open>
  The work item \<open>(block, feat)\<close> of \<^verbatim>\<open>BuildHistKernelLocal\<close>.  \<open>hist_fast\<close> is an array
  of \<open>kMaxNumBins\<close> pairs that the code does not initialise: its first content is the
  parameter \<open>uninit\<close>.  \<open>kMaxNumBins\<close> (\<^verbatim>\<open>HistDispatcher<FPType>::KMaxNumBins\<close>) is declared
  outside the sources and is a parameter.
\<close>

definition BuildHistKernelLocal_item ::
  "nat \<Rightarrow> (nat \<Rightarrow> 'a::{zero,plus} GradientPairInternal) \<Rightarrow> BinTypeSize \<Rightarrow>
   (nat \<Rightarrow> 'a GradientPairInternal) \<Rightarrow> nat list \<Rightarrow>
   GHistIndexMatrix \<Rightarrow> HistDispatcher \<Rightarrow> nat \<Rightarrow> nat \<Rightarrow>
   'a GradientPairInternal list \<Rightarrow> error + 'a GradientPairInternal list" where
  "BuildHistKernelLocal_item kMaxNumBins uninit bt pgh rid gmat dispatcher block feat
       hist_buffer_data =
     (case forM (strided feat (nfeatures gmat) (work_group_size dispatcher))
             (BuildHistKernelLocal_feature bt pgh rid gmat dispatcher block)
             (map uninit [0..<kMaxNumBins], hist_buffer_data) of
        Inl e \<Rightarrow> Inl e
      | Inr (hist_fast, buf) \<Rightarrow> Inr buf)"

text \<open>\<^verbatim>\<open>BuildHistKernelLocal\<close>: main kernel (no fill of the scratch), \<^verbatim>\<open>ReduceHist\<close>.\<close>

definition BuildHistKernelLocal ::
  "nat \<Rightarrow> (nat \<Rightarrow> 'a::{zero,plus} GradientPairInternal) \<Rightarrow> BinTypeSize \<Rightarrow>
   (nat \<Rightarrow> 'a GradientPairInternal) \<Rightarrow> nat list \<Rightarrow>
   GHistIndexMatrix \<Rightarrow> 'a GradientPairInternal list \<Rightarrow> 'a GradientPairInternal list \<Rightarrow>
   HistDispatcher \<Rightarrow> error + ('a GradientPairInternal list \<times> 'a GradientPairInternal list)" where
  "BuildHistKernelLocal kMaxNumBins uninit bt pgh rid gmat hist hist_buffer dispatcher =
     (case forM (work_items (block_nblocks dispatcher) (work_group_size dispatcher))
             (\<lambda>(block, feat).
                BuildHistKernelLocal_item kMaxNumBins uninit bt pgh rid gmat dispatcher block feat)
             hist_buffer of
        Inl e \<Rightarrow> Inl e
      | Inr buf1 \<Rightarrow>
          (case ReduceHist hist buf1 (block_nblocks dispatcher) (nbins gmat) of
             Inl e \<Rightarrow> Inl e
           | Inr h \<Rightarrow> Inr (h, buf1)))"

text \<open>
  The work item of the kernel "with atomic using": global id \<open>gid\<close> in the dimension of
  the rows, lane \<open>local_id\<close> of group \<open>group_id\<close>.  The row position is stored in
  \<^verbatim>\<open>const int i\<close>, and \<^verbatim>\<open>rid[i]\<close> is read through it; the indices \<^verbatim>\<open>2 * idx_bin\<close> and
  \<^verbatim>\<open>2 * idx_bin + 1\<close> are computed in \<^verbatim>\<open>uint32_t\<close> and wrap.  The two atomic additions
  are the additions of \<open>FPType\<close>.
\<close>

definition BuildHistKernel_atomic_item ::
  "bool \<Rightarrow> BinTypeSize \<Rightarrow> (nat \<Rightarrow> 'a::{zero,plus} GradientPairInternal) \<Rightarrow> nat list \<Rightarrow>
   GHistIndexMatrix \<Rightarrow> nat \<Rightarrow> nat \<Rightarrow> nat \<Rightarrow> nat \<Rightarrow>
   'a GradientPairInternal list \<Rightarrow> error + 'a GradientPairInternal list" where
  "BuildHistKernel_atomic_item isDense bt pgh rid gmat wg_size gid group_id local_id hist_data =
     (let i = sint (word_of_nat gid :: 32 word) in
      if i < 0 \<or> length rid \<le> nat i then Inl IndexOverflow
      else
        let icol_start = n_columns isDense gmat * rid ! nat i;
            idx_gh = rid ! nat i;
            pgh_row0 = pgh_flat pgh (2 * idx_gh);
            pgh_row1 = pgh_flat pgh (2 * idx_gh + 1);
            j = group_id * wg_size + local_id
        in if j < n_columns isDense gmat then
             let idx_bin = bin_index isDense bt gmat icol_start j in
             if unat idx_bin < nbins gmat then
               (case flat_add hist_data (unat (2 * idx_bin)) pgh_row0 of
                  Inl e \<Rightarrow> Inl e
                | Inr h \<Rightarrow> flat_add h (unat (2 * idx_bin + 1)) pgh_row1)
             else Inr hist_data
           else Inr hist_data)"

text \<open>
  \<^verbatim>\<open>BuildHistKernel\<close>, the overload without \<^verbatim>\<open>hist_buffer\<close>.  The number of work
  groups divides by \<^verbatim>\<open>work_group_size\<close>.
\<close>

definition BuildHistKernel_atomic ::
  "bool \<Rightarrow> BinTypeSize \<Rightarrow> (nat \<Rightarrow> 'a::{zero,plus} GradientPairInternal) \<Rightarrow> nat list \<Rightarrow>
   GHistIndexMatrix \<Rightarrow> 'a GradientPairInternal list \<Rightarrow> HistDispatcher \<Rightarrow>
   error + 'a GradientPairInternal list" where
  "BuildHistKernel_atomic isDense bt pgh rid gmat hist dispatcher =
     (let wg_size = work_group_size dispatcher in
      if wg_size = 0 then Inl DivideByZero
      else
        let n_work_groups =
              n_columns isDense gmat div wg_size
              + (if n_columns isDense gmat mod wg_size > 0 then 1 else 0)
        in case flat_fill hist 0 (nbins gmat * 2) of
             Inl e \<Rightarrow> Inl e
           | Inr h0 \<Rightarrow>
               forM (List.product [0..<length rid] (work_items n_work_groups wg_size))
                 (\<lambda>(i, group_id, local_id).
                    BuildHistKernel_atomic_item isDense bt pgh rid gmat wg_size i group_id local_id)
                 h0)"

section \<open>Kernel selection\<close>

text \<open>
  The kernel that \<^verbatim>\<open>BuildHistDispatchKernel\<close> calls: which of the three, with which
  \<^verbatim>\<open>BinIdxType\<close> and, for the two overloads of \<^verbatim>\<open>BuildHistKernel\<close>, which \<^verbatim>\<open>isDense\<close>.
\<close>

datatype kernel_call =
  is_CallBuffer: CallBuffer BinTypeSize bool
  | is_CallLocal: CallLocal BinTypeSize
  | is_CallAtomic: CallAtomic BinTypeSize bool

text \<open>The branches of \<^verbatim>\<open>BuildHistDispatchKernel<FPType, BinIdxType>\<close>.\<close>

definition BuildHistDispatchKernel_select ::
  "BinTypeSize \<Rightarrow> bool \<Rightarrow> HistDispatcher \<Rightarrow> bool \<Rightarrow> kernel_call" where
  "BuildHistDispatchKernel_select BinIdxType isDense dispatcher force_atomic_use =
     (let use_atomic = use_atomics dispatcher \<or> force_atomic_use in
      if \<not> use_atomic then
        (if isDense then
           (if use_local_hist dispatcher then CallLocal BinIdxType
            else CallBuffer BinIdxType True)
         else CallBuffer kUint32BinsTypeSize False)
      else
        (if isDense then CallAtomic BinIdxType True
         else CallAtomic kUint32BinsTypeSize False))"

fun run_kernel_call ::
  "nat \<Rightarrow> (nat \<Rightarrow> 'a::{zero,plus} GradientPairInternal) \<Rightarrow> kernel_call \<Rightarrow>
   (nat \<Rightarrow> 'a GradientPairInternal) \<Rightarrow> nat list \<Rightarrow>
   GHistIndexMatrix \<Rightarrow> 'a GradientPairInternal list \<Rightarrow> 'a GradientPairInternal list \<Rightarrow>
   HistDispatcher \<Rightarrow> error + ('a GradientPairInternal list \<times> 'a GradientPairInternal list)" where
  "run_kernel_call kMaxNumBins uninit (CallBuffer bt isDense) pgh rid gmat hist hist_buffer d =
     BuildHistKernel_buffer isDense bt pgh rid gmat hist hist_buffer d"
| "run_kernel_call kMaxNumBins uninit (CallLocal bt) pgh rid gmat hist hist_buffer d =
     BuildHistKernelLocal kMaxNumBins uninit bt pgh rid gmat hist hist_buffer d"
| "run_kernel_call kMaxNumBins uninit (CallAtomic bt isDense) pgh rid gmat hist hist_buffer d =
     (case BuildHistKernel_atomic isDense bt pgh rid gmat hist d of
        Inl e \<Rightarrow> Inl e
      | Inr h \<Rightarrow> Inr (h, hist_buffer))"

text \<open>
  \<^verbatim>\<open>BuildHistDispatchKernel\<close>.  \<open>make_dispatcher\<close> stands for the constructor of
  \<^verbatim>\<open>tree::HistDispatcher<FPType>\<close>, applied to \<^verbatim>\<open>device_prop\<close>, \<^verbatim>\<open>isDense\<close>, the number of
  rows, \<^verbatim>\<open>max_n_blocks\<close>, \<^verbatim>\<open>nbins\<close>, \<^verbatim>\<open>n_columns\<close>, \<^verbatim>\<open>max_num_bins\<close> and \<^verbatim>\<open>min_num_bins\<close>.
  \<^verbatim>\<open>max_n_blocks\<close> divides by \<^verbatim>\<open>nbins\<close>.
\<close>

definition BuildHistDispatchKernel ::
  "('dp \<Rightarrow> bool \<Rightarrow> nat \<Rightarrow> nat \<Rightarrow> nat \<Rightarrow> nat \<Rightarrow> nat \<Rightarrow> nat \<Rightarrow> HistDispatcher) \<Rightarrow>
   nat \<Rightarrow> (nat \<Rightarrow> 'a::{zero,plus} GradientPairInternal) \<Rightarrow> BinTypeSize \<Rightarrow>
   (nat \<Rightarrow> 'a GradientPairInternal) \<Rightarrow> nat list \<Rightarrow>
   GHistIndexMatrix \<Rightarrow> 'a GradientPairInternal list \<Rightarrow> bool \<Rightarrow> 'a GradientPairInternal list \<Rightarrow>
   'dp \<Rightarrow> bool \<Rightarrow> error + ('a GradientPairInternal list \<times> 'a GradientPairInternal list)" where
  "BuildHistDispatchKernel make_dispatcher kMaxNumBins uninit BinIdxType pgh rid gmat hist isDense
       hist_buffer device_prop force_atomic_use =
     (if nbins gmat = 0 then Inl DivideByZero
      else
        let max_n_blocks = length hist_buffer div nbins gmat;
            dispatcher =
              make_dispatcher device_prop isDense (length rid) max_n_blocks (nbins gmat)
                (n_columns isDense gmat) (max_num_bins gmat) (min_num_bins gmat)
        in run_kernel_call kMaxNumBins uninit
             (BuildHistDispatchKernel_select BinIdxType isDense dispatcher force_atomic_use)
             pgh rid gmat hist hist_buffer dispatcher)"

text \<open>
  \<^verbatim>\<open>BuildHistKernel<FPType>\<close>, the switch over \<^verbatim>\<open>gmat.index.GetBinTypeSize()\<close>;
  \<^verbatim>\<open>GHistBuilder::BuildHist\<close> passes its arguments on to it.
\<close>

definition BuildHistKernel ::
  "('dp \<Rightarrow> bool \<Rightarrow> nat \<Rightarrow> nat \<Rightarrow> nat \<Rightarrow> nat \<Rightarrow> nat \<Rightarrow> nat \<Rightarrow> HistDispatcher) \<Rightarrow>
   nat \<Rightarrow> (nat \<Rightarrow> 'a::{zero,plus} GradientPairInternal) \<Rightarrow>
   (nat \<Rightarrow> 'a GradientPairInternal) \<Rightarrow> nat list \<Rightarrow>
   GHistIndexMatrix \<Rightarrow> bool \<Rightarrow> 'a GradientPairInternal list \<Rightarrow> 'a GradientPairInternal list \<Rightarrow>
   'dp \<Rightarrow> bool \<Rightarrow> error + ('a GradientPairInternal list \<times> 'a GradientPairInternal list)" where
  "BuildHistKernel make_dispatcher kMaxNumBins uninit pgh rid gmat isDense hist hist_buffer
       device_prop force_atomic_use =
     (case GetBinTypeSize gmat of
        kUint8BinsTypeSize \<Rightarrow>
          BuildHistDispatchKernel make_dispatcher kMaxNumBins uninit kUint8BinsTypeSize pgh rid
            gmat hist isDense hist_buffer device_prop force_atomic_use
      | kUint16BinsTypeSize \<Rightarrow>
          BuildHistDispatchKernel make_dispatcher kMaxNumBins uninit kUint16BinsTypeSize pgh rid
            gmat hist isDense hist_buffer device_prop force_atomic_use
      | kUint32BinsTypeSize \<Rightarrow>
          BuildHistDispatchKernel make_dispatcher kMaxNumBins uninit kUint32BinsTypeSize pgh rid
            gmat hist isDense hist_buffer device_prop force_atomic_use)"

definition BuildHist ::
  "('dp \<Rightarrow> bool \<Rightarrow> nat \<Rightarrow> nat \<Rightarrow> nat \<Rightarrow> nat \<Rightarrow> nat \<Rightarrow> nat \<Rightarrow> HistDispatcher) \<Rightarrow>
   nat \<Rightarrow> (nat \<Rightarrow> 'a::{zero,plus} GradientPairInternal) \<Rightarrow>
   (nat \<Rightarrow> 'a GradientPairInternal) \<Rightarrow> nat list \<Rightarrow>
   GHistIndexMatrix \<Rightarrow> 'a GradientPairInternal list \<Rightarrow> bool \<Rightarrow> 'a GradientPairInternal list \<Rightarrow>
   'dp \<Rightarrow> bool \<Rightarrow> error + ('a GradientPairInternal list \<times> 'a GradientPairInternal list)" where
  "BuildHist make_dispatcher kMaxNumBins uninit pgh rid gmat hist isDense hist_buffer
       device_prop force_atomic_use =
     BuildHistKernel make_dispatcher kMaxNumBins uninit pgh rid gmat isDense hist hist_buffer
       device_prop force_atomic_use"

section \<open>Split conditions (src/tree/common_row_partitioner.h)\<close>

text \<open>
  \<^verbatim>\<open>RegTree\<close> and the expand entries are declared outside the sources; the partitioner
  reads a node's split feature, split value and children, and an entry's node id.
  \<^verbatim>\<open>bst_node_t\<close> and \<^verbatim>\<open>bst_bin_t\<close> are 32-bit signed integers, given by their values.
  The \<^verbatim>\<open>float\<close> type is the parameter \<open>'f\<close>, and \<open>float_eq\<close> its \<^verbatim>\<open>operator==\<close>.
\<close>

record ExpandEntry =
  nid :: int

record 'f RegTree =
  SplitIndex :: "int \<Rightarrow> nat"
  SplitCond :: "int \<Rightarrow> 'f"
  LeftChild :: "int \<Rightarrow> int"
  RightChild :: "int \<Rightarrow> int"

text \<open>\<^verbatim>\<open>static_cast<bst_bin_t>(bound)\<close> of a \<^verbatim>\<open>uint32_t\<close>.\<close>

definition static_cast_bst_bin_t :: "32 word \<Rightarrow> int" where
  "static_cast_bst_bin_t bound = sint bound"

text \<open>
  \<^verbatim>\<open>FindSplitConditions\<close>.  The loop variable \<^verbatim>\<open>bound\<close> runs from \<^verbatim>\<open>lower_bound\<close> while
  it is below \<^verbatim>\<open>upper_bound\<close>, so it never wraps; the vectors are read and written with
  their bounds checked.
\<close>

definition FindSplitConditions ::
  "('f \<Rightarrow> 'f \<Rightarrow> bool) \<Rightarrow> ExpandEntry list \<Rightarrow> 'f RegTree \<Rightarrow> 32 word list \<Rightarrow> 'f list \<Rightarrow>
   int list \<Rightarrow> error + int list" where
  "FindSplitConditions float_eq nodes tree ptrs vals split_conditions =
     forM [0..<length nodes]
       (\<lambda>i split_conditions.
          let nidx = nid (nodes ! i);
              fidx = SplitIndex tree nidx;
              split_pt = SplitCond tree nidx
          in case load ptrs fidx of
               Inl e \<Rightarrow> Inl e
             | Inr lower_bound \<Rightarrow>
                 (case load ptrs (fidx + 1) of
                    Inl e \<Rightarrow> Inl e
                  | Inr upper_bound \<Rightarrow>
                      if \<not> upper_bound < 0x7FFFFFFF then Inl CheckFailed
                      else
                        (case forM [unat lower_bound..<unat upper_bound]
                                (\<lambda>bound split_cond.
                                   case load vals bound of
                                     Inl e \<Rightarrow> Inl e
                                   | Inr v \<Rightarrow>
                                       Inr (if float_eq split_pt v
                                            then static_cast_bst_bin_t (word_of_nat bound)
                                            else split_cond))
                                (- 1) of
                           Inl e \<Rightarrow> Inl e
                         | Inr split_cond \<Rightarrow> store split_conditions i split_cond)))
       split_conditions"

section \<open>Column-split helper (src/tree/common_row_partitioner.h)\<close>

text \<open>\<^verbatim>\<open>make_tloc\<close>: \<^verbatim>\<open>span.subspan(n * tidx, n)\<close>, which checks its bounds.\<close>

definition make_tloc :: "nat \<Rightarrow> 8 word list \<Rightarrow> nat \<Rightarrow> error + 8 word list" where
  "make_tloc n storage tidx =
     (if n * tidx + n \<le> length storage then Inr (take n (drop (n * tidx) storage))
      else Inl OutOfBounds)"

text \<open>
  Modelled from the spec: \<^verbatim>\<open>RBitField8::operator|=\<close> (common/bitfield.h is not among the
  sources), the bitwise OR of the right operand into the left one, word by word.
\<close>

definition bitfield_or :: "8 word list \<Rightarrow> 8 word list \<Rightarrow> 8 word list" where
  "bitfield_or a b = map2 (OR) a b @ drop (length b) a"

text \<open>
  Modelled from the spec: \<^verbatim>\<open>collective::Allreduce\<close> (the collective is not among the
  sources).  The buffer returned on a worker is the aggregate, under the operation, of its
  own buffer and the buffers \<open>others\<close> of the other workers; a transport failure is
  reported.
\<close>

definition Allreduce ::
  "bool \<Rightarrow> (8 word \<Rightarrow> 8 word \<Rightarrow> 8 word) \<Rightarrow> 8 word list \<Rightarrow> 8 word list list \<Rightarrow>
   error + 8 word list" where
  "Allreduce transport_ok op buf others =
     (if transport_ok then Inr (fold (\<lambda>b acc. map2 op acc b) others buf)
      else Inl CollectiveFailure)"

text \<open>
  What one worker's call of \<^verbatim>\<open>Partition\<close> meets of the other workers: the vectors they
  contribute to the two collectives, and whether each collective succeeds.
\<close>

record Collective =
  others_decision :: "8 word list list"
  others_missing :: "8 word list list"
  decision_ok :: bool
  missing_ok :: bool

text \<open>
  \<^verbatim>\<open>ColumnSplitHelper::Partition\<close> on one worker whose bit vectors have \<open>n\<close> bytes.
  The two passes over the blocked space call the partition builder, which is not among
  the sources: \<open>mask_rows\<close> is the first pass (\<^verbatim>\<open>MaskRows\<close> on every task), from the
  zero-filled thread-local storages to those storages after the pass, and
  \<open>partition_by_mask\<close> is the second pass (\<^verbatim>\<open>PartitionByMask\<close>), a function of
  \<^verbatim>\<open>decision_bits_\<close> and \<^verbatim>\<open>missing_bits_\<close>.  The reduction \<^verbatim>\<open>decision |= ...\<close> writes through
  the view of thread 0 and reads the views of the other threads, which it never writes.
\<close>

definition ColumnSplitHelper_Partition ::
  "nat \<Rightarrow> nat \<Rightarrow> (8 word list \<times> 8 word list \<Rightarrow> 8 word list \<times> 8 word list) \<Rightarrow>
   Collective \<Rightarrow> (8 word list \<Rightarrow> 8 word list \<Rightarrow> 'r) \<Rightarrow> error + 'r" where
  "ColumnSplitHelper_Partition n n_threads mask_rows coll partition_by_mask =
     (let (tloc_decision, tloc_missing) =
            mask_rows (replicate (n * n_threads) 0, replicate (n * n_threads) 0)
      in case make_tloc n tloc_decision 0 of
           Inl e \<Rightarrow> Inl e
         | Inr decision0 \<Rightarrow>
             (case make_tloc n tloc_missing 0 of
                Inl e \<Rightarrow> Inl e
              | Inr missing0 \<Rightarrow>
                  (case forM [1..<n_threads]
                          (\<lambda>tidx (decision, missing).
                             case make_tloc n tloc_decision tidx of
                               Inl e \<Rightarrow> Inl e
                             | Inr d \<Rightarrow>
                                 (case make_tloc n tloc_missing tidx of
                                    Inl e \<Rightarrow> Inl e
                                  | Inr m \<Rightarrow>
                                      Inr (bitfield_or decision d, bitfield_or missing m)))
                          (decision0, missing0) of
                     Inl e \<Rightarrow> Inl e
                   | Inr (decision, missing) \<Rightarrow>
                       if n \<noteq> length decision then Inl CheckFailed
                       else
                         let decision_storage = take n decision;
                             missing_storage = take n missing
                         in case Allreduce (decision_ok coll) (OR) decision_storage
                                   (others_decision coll) of
                              Inl e \<Rightarrow> Inl e
                            | Inr decision_bits \<Rightarrow>
                                (case Allreduce (missing_ok coll) (AND) missing_storage
                                        (others_missing coll) of
                                   Inl e \<Rightarrow> Inl e
                                 | Inr missing_bits \<Rightarrow>
                                     Inr (partition_by_mask decision_bits missing_bits)))))"

section \<open>Row partitioner (src/tree/common_row_partitioner.h)\<close>

text \<open>
  Modelled from the spec: the row-set collection (common/row_set.h is not among the
  sources).  Each node that has a range owns \<open>[begin, end)\<close> of the shared row-index
  buffer; \<open>AddSplit\<close> requires \<open>n_left + n_right\<close> to be the size of the parent's range and
  attaches \<open>[begin, begin + n_left)\<close> and \<open>[begin + n_left, begin + n_left + n_right)\<close> to the
  children.
\<close>

record RowSetCollection =
  row_indices :: "nat list"
  elem_of_each_node :: "int \<rightharpoonup> nat \<times> nat"

definition Elem_rows :: "RowSetCollection \<Rightarrow> int \<Rightarrow> error + nat list" where
  "Elem_rows c node_id =
     (case elem_of_each_node c node_id of
        None \<Rightarrow> Inl OutOfBounds
      | Some (b, e) \<Rightarrow>
          if b \<le> e \<and> e \<le> length (row_indices c)
          then Inr (take (e - b) (drop b (row_indices c)))
          else Inl OutOfBounds)"

definition AddSplit ::
  "int \<Rightarrow> int \<Rightarrow> int \<Rightarrow> nat \<Rightarrow> nat \<Rightarrow> RowSetCollection \<Rightarrow> error + RowSetCollection" where
  "AddSplit node_id left_node_id right_node_id n_left n_right c =
     (case elem_of_each_node c node_id of
        None \<Rightarrow> Inl OutOfBounds
      | Some (b, e) \<Rightarrow>
          if n_left + n_right \<noteq> e - b then Inl CheckFailed
          else Inr (c\<lparr>elem_of_each_node :=
                       (elem_of_each_node c)
                         (left_node_id \<mapsto> (b, b + n_left),
                          right_node_id \<mapsto> (b + n_left, b + n_left + n_right))\<rparr>))"

text \<open>
  Modelled from the spec: the partition builder (common/partition_builder.h is not
  among the sources).  A node's rows are cut into blocks of \<open>kPartitionBlockSize\<close>; a
  task turns a block into its left-destined and its right-destined rows, in the block's
  order, and stores them in the builder's buffers for that task; the merge copies the left
  rows of all blocks, then the right rows of all blocks, into the node's range of the
  shared row-index buffer.  \<open>mem_blocks\<close> holds, for every node of the call and every
  task of the node, the two buffers of the task.
\<close>

definition kPartitionBlockSize :: nat where
  "kPartitionBlockSize = 2048"

record PartitionBuilder =
  mem_blocks :: "(nat list \<times> nat list) list list"

text \<open>\<^verbatim>\<open>Init(space.Size(), n_nodes, n_tasks)\<close>: empty buffers for every task of every node.\<close>

definition PartitionBuilder_Init :: "nat \<Rightarrow> (nat \<Rightarrow> nat) \<Rightarrow> PartitionBuilder" where
  "PartitionBuilder_Init n_nodes n_tasks =
     \<lparr>mem_blocks = map (\<lambda>node_in_set. replicate (n_tasks node_in_set) ([], [])) [0..<n_nodes]\<rparr>"

definition partition_task :: "(nat \<Rightarrow> bool) \<Rightarrow> nat list \<Rightarrow> nat list \<times> nat list" where
  "partition_task goes_left block = (filter goes_left block, filter (\<lambda>r. \<not> goes_left r) block)"

text \<open>
  \<^verbatim>\<open>AllocateForTask\<close> followed by \<^verbatim>\<open>Partition\<close> or \<^verbatim>\<open>PartitionByMask\<close> on one block: the
  buffers of the task receive the rows of the block.
\<close>

definition PartitionBuilder_Partition ::
  "(nat \<Rightarrow> bool) \<Rightarrow> nat \<Rightarrow> nat \<Rightarrow> nat list \<Rightarrow> PartitionBuilder \<Rightarrow> error + PartitionBuilder" where
  "PartitionBuilder_Partition goes_left node_in_set task block pb =
     (if node_in_set < length (mem_blocks pb) \<and> task < length (mem_blocks pb ! node_in_set)
      then Inr (pb\<lparr>mem_blocks :=
                    (mem_blocks pb)
                      [node_in_set :=
                         (mem_blocks pb ! node_in_set)[task := partition_task goes_left block]]\<rparr>)
      else Inl OutOfBounds)"

definition GetNLeftElems :: "PartitionBuilder \<Rightarrow> nat \<Rightarrow> nat" where
  "GetNLeftElems pb i = length (concat (map fst (mem_blocks pb ! i)))"

definition GetNRightElems :: "PartitionBuilder \<Rightarrow> nat \<Rightarrow> nat" where
  "GetNRightElems pb i = length (concat (map snd (mem_blocks pb ! i)))"

definition MergeToArray ::
  "(nat list \<times> nat list) list \<Rightarrow> nat \<Rightarrow> nat list \<Rightarrow> nat list" where
  "MergeToArray tasks b rows_indexes =
     (let merged = concat (map fst tasks) @ concat (map snd tasks)
      in take b rows_indexes @ merged @ drop (b + length merged) rows_indexes)"

text \<open>
  Modelled from the spec: the blocked space (common/threading_utils.h is not among the
  sources).  For the node sizes \<open>sizes\<close> it is the list of the tasks
  \<open>(node_in_set, begin, end)\<close>, the ranges of at most \<open>kPartitionBlockSize\<close> rows of every
  node, in the order of the nodes.  \<open>n_tasks_of\<close> is the number of tasks that
  \<^verbatim>\<open>UpdatePosition\<close> computes for a node of a given size.
\<close>

definition n_tasks_of :: "nat \<Rightarrow> nat" where
  "n_tasks_of n_size =
     n_size div kPartitionBlockSize + (if n_size mod kPartitionBlockSize \<noteq> 0 then 1 else 0)"

definition BlockedSpace2d :: "nat list \<Rightarrow> (nat \<times> nat \<times> nat) list" where
  "BlockedSpace2d sizes =
     concat (map (\<lambda>node_in_set.
                    map (\<lambda>k. (node_in_set, k * kPartitionBlockSize,
                              min (sizes ! node_in_set)
                                (k * kPartitionBlockSize + kPartitionBlockSize)))
                      [0..<n_tasks_of (sizes ! node_in_set)])
               [0..<length sizes])"

text \<open>
  The members of a \<^verbatim>\<open>ColumnSplitHelper\<close>: the two bit vectors of the worker and their
  thread-local replicas.  \<^verbatim>\<open>decision_bits_\<close> and \<^verbatim>\<open>missing_bits_\<close> are views of the two
  storages.
\<close>

record ColumnSplitHelper =
  decision_storage :: "8 word list"
  missing_storage :: "8 word list"
  tloc_decision :: "8 word list"
  tloc_missing :: "8 word list"

text \<open>
  \<^verbatim>\<open>ColumnSplitHelper::Partition\<close> up to the aggregation of the bit vectors, as a change
  of the members of the helper: the fills, the first pass \<open>mask_rows\<close> into the thread-local
  replicas, the reduction into the view of thread 0, the copy into the two storages, and
  the two collectives, which write the storages.  The result is the failure, if any, and
  the members as the call leaves them; both storages have the \<open>n\<close> bytes that the
  constructor has given them.
\<close>

definition ColumnSplitHelper_Partition_members ::
  "nat \<Rightarrow> (8 word list \<times> 8 word list \<Rightarrow> 8 word list \<times> 8 word list) \<Rightarrow> Collective \<Rightarrow>
   ColumnSplitHelper \<Rightarrow> error option \<times> ColumnSplitHelper" where
  "ColumnSplitHelper_Partition_members n_threads mask_rows coll h =
     (let n = length (decision_storage h);
          (tloc_d, tloc_m) =
            mask_rows (replicate (n * n_threads) 0, replicate (n * n_threads) 0);
          h1 = h\<lparr>decision_storage := replicate n 0, missing_storage := replicate n 0,
                 tloc_decision := tloc_d, tloc_missing := tloc_m\<rparr>
      in case make_tloc n tloc_d 0 of
           Inl e \<Rightarrow> (Some e, h1)
         | Inr decision0 \<Rightarrow>
             (case make_tloc n tloc_m 0 of
                Inl e \<Rightarrow> (Some e, h1)
              | Inr missing0 \<Rightarrow>
                  (case forM [1..<n_threads]
                          (\<lambda>tidx (decision, missing).
                             case make_tloc n tloc_d tidx of
                               Inl e \<Rightarrow> Inl e
                             | Inr d \<Rightarrow>
                                 (case make_tloc n tloc_m tidx of
                                    Inl e \<Rightarrow> Inl e
                                  | Inr m \<Rightarrow>
                                      Inr (bitfield_or decision d, bitfield_or missing m)))
                          (decision0, missing0) of
                     Inl e \<Rightarrow> (Some e, h1)
                   | Inr (decision, missing) \<Rightarrow>
                       let h2 = h1\<lparr>tloc_decision := decision @ drop n tloc_d,
                                   tloc_missing := missing @ drop n tloc_m\<rparr>
                       in if n \<noteq> length decision then (Some CheckFailed, h2)
                          else
                            let h3 = h2\<lparr>decision_storage := take n decision,
                                        missing_storage := take n missing\<rparr>
                            in case Allreduce (decision_ok coll) (OR) (decision_storage h3)
                                      (others_decision coll) of
                                 Inl e \<Rightarrow> (Some e, h3)
                               | Inr decision_bits \<Rightarrow>
                                   (case Allreduce (missing_ok coll) (AND) (missing_storage h3)
                                           (others_missing coll) of
                                      Inl e \<Rightarrow> (Some e, h3\<lparr>decision_storage := decision_bits\<rparr>)
                                    | Inr missing_bits \<Rightarrow>
                                        (None, h3\<lparr>decision_storage := decision_bits,
                                                  missing_storage := missing_bits\<rparr>)))))"

text \<open>
  The members of a \<^verbatim>\<open>CommonRowPartitioner\<close> (names without their trailing underscore).
\<close>

record CommonRowPartitioner =
  base_rowid :: nat
  row_set_collection :: RowSetCollection
  is_col_split :: bool
  partition_builder :: PartitionBuilder
  column_split_helper :: ColumnSplitHelper

text \<open>
  What \<^verbatim>\<open>UpdatePosition\<close> reads of the matrix (\<^verbatim>\<open>gmat.cut.Ptrs()\<close>, \<^verbatim>\<open>gmat.cut.Values()\<close>,
  \<^verbatim>\<open>gmat.base_rowid\<close>, \<^verbatim>\<open>gmat.Transpose().IsInitialized()\<close>) and the per-row decisions of
  the partition builder, which are parameters: \<open>goes_left split_cond node_in_set row\<close>
  for \<^verbatim>\<open>Partition\<close>, and for a column split the first pass \<open>mask_rows\<close> and the decision
  \<open>goes_left_by_mask\<close> that \<^verbatim>\<open>PartitionByMask\<close> takes from the aggregated bits.
\<close>

record 'f PartitionInput =
  float_eq :: "'f \<Rightarrow> 'f \<Rightarrow> bool"
  cut_Ptrs :: "32 word list"
  cut_Values :: "'f list"
  gmat_base_rowid :: nat
  IsInitialized :: bool
  Threads :: nat
  goes_left :: "int \<Rightarrow> nat \<Rightarrow> nat \<Rightarrow> bool"
  mask_rows :: "int list \<Rightarrow> 8 word list \<times> 8 word list \<Rightarrow> 8 word list \<times> 8 word list"
  collective :: Collective
  goes_left_by_mask :: "8 word list \<Rightarrow> 8 word list \<Rightarrow> nat \<Rightarrow> nat \<Rightarrow> bool"

text \<open>A loop that stops at the first failure and returns the state it has reached.\<close>

fun forS :: "'x list \<Rightarrow> ('x \<Rightarrow> 's \<Rightarrow> error + 's) \<Rightarrow> 's \<Rightarrow> error option \<times> 's" where
  "forS [] body s = (None, s)"
| "forS (x # xs) body s =
     (case body x s of Inl e \<Rightarrow> (Some e, s) | Inr s' \<Rightarrow> forS xs body s')"

text \<open>
  One task of the loops over the blocked space in step 2.3: the rows of the range are read
  through \<^verbatim>\<open>row_set_collection_[nid].begin()\<close>, and the partition builder receives the
  rows that go left and those that go right.
\<close>

definition partition_block ::
  "(nat \<Rightarrow> nat \<Rightarrow> bool) \<Rightarrow> ExpandEntry list \<Rightarrow> nat \<times> nat \<times> nat \<Rightarrow> CommonRowPartitioner \<Rightarrow>
   error + CommonRowPartitioner" where
  "partition_block decide nodes task p =
     (case task of
        (node_in_set, r_begin, r_end) \<Rightarrow>
          (case Elem_rows (row_set_collection p) (nid (nodes ! node_in_set)) of
             Inl e \<Rightarrow> Inl e
           | Inr rows \<Rightarrow>
               (case PartitionBuilder_Partition (decide node_in_set) node_in_set
                       (r_begin div kPartitionBlockSize)
                       (take (r_end - r_begin) (drop r_begin rows)) (partition_builder p) of
                  Inl e \<Rightarrow> Inl e
                | Inr pb \<Rightarrow> Inr (p\<lparr>partition_builder := pb\<rparr>))))"

text \<open>
  Steps 1 to 3 of \<^verbatim>\<open>UpdatePosition\<close>: the split conditions, the blocked space over the
  rows of each node, \<^verbatim>\<open>partition_builder_.Init\<close>, the check of \<^verbatim>\<open>base_rowid\<close>, and the
  partition of every block into the buffers of the partition builder, through the
  column-split helper when the data is split by column.  \<^verbatim>\<open>CalculateRowOffsets\<close> (step
  3) derives the offsets of the merge from the sizes of the buffers, which the model
  recomputes where it needs them.  The result is the failure, if any, and the partitioner
  as these steps leave it.
\<close>

definition UpdatePosition_partition ::
  "'f PartitionInput \<Rightarrow> ExpandEntry list \<Rightarrow> 'f RegTree \<Rightarrow> CommonRowPartitioner \<Rightarrow>
   error option \<times> CommonRowPartitioner" where
  "UpdatePosition_partition inp nodes p_tree p =
     (let n_nodes = length nodes in
      case (if IsInitialized inp
            then FindSplitConditions (float_eq inp) nodes p_tree (cut_Ptrs inp) (cut_Values inp)
                   (replicate n_nodes 0)
            else Inr []) of
        Inl e \<Rightarrow> (Some e, p)
      | Inr split_conditions \<Rightarrow>
          (case forM nodes
                  (\<lambda>node sizes.
                     case Elem_rows (row_set_collection p) (nid node) of
                       Inl e \<Rightarrow> Inl e
                     | Inr rows \<Rightarrow> Inr (sizes @ [length rows]))
                  [] of
             Inl e \<Rightarrow> (Some e, p)
           | Inr sizes \<Rightarrow>
               let space = BlockedSpace2d sizes;
                   p1 = p\<lparr>partition_builder :=
                           PartitionBuilder_Init n_nodes (\<lambda>node_in_set. n_tasks_of (sizes ! node_in_set))\<rparr>
               in if base_rowid p1 \<noteq> gmat_base_rowid inp then (Some CheckFailed, p1)
                  else if is_col_split p1 then
                    (case ColumnSplitHelper_Partition_members (Threads inp)
                            (mask_rows inp split_conditions) (collective inp)
                            (column_split_helper p1) of
                       (Some e, h) \<Rightarrow> (Some e, p1\<lparr>column_split_helper := h\<rparr>)
                     | (None, h) \<Rightarrow>
                         forS space
                           (partition_block
                              (goes_left_by_mask inp (decision_storage h) (missing_storage h))
                              nodes)
                           (p1\<lparr>column_split_helper := h\<rparr>))
                  else
                    forS space
                      (partition_block
                         (\<lambda>node_in_set.
                            goes_left inp
                              (if IsInitialized inp then split_conditions ! node_in_set else 0)
                              node_in_set)
                         nodes)
                      p1))"

text \<open>
  Step 4: \<^verbatim>\<open>MergeToArray\<close> copies the buffers of every node into the node's range of the
  row-index buffer.
\<close>

definition UpdatePosition_merge ::
  "ExpandEntry list \<Rightarrow> CommonRowPartitioner \<Rightarrow> CommonRowPartitioner" where
  "UpdatePosition_merge nodes p =
     fold (\<lambda>node_in_set p.
             case elem_of_each_node (row_set_collection p) (nid (nodes ! node_in_set)) of
               None \<Rightarrow> p
             | Some (b, e) \<Rightarrow>
                 p\<lparr>row_set_collection :=
                     (row_set_collection p)
                       \<lparr>row_indices :=
                          MergeToArray (mem_blocks (partition_builder p) ! node_in_set) b
                            (row_indices (row_set_collection p))\<rparr>\<rparr>)
       [0..<length nodes] p"

text \<open>Step 5: \<^verbatim>\<open>AddSplitsToRowSet\<close>.\<close>

definition AddSplitsToRowSet ::
  "ExpandEntry list \<Rightarrow> 'f RegTree \<Rightarrow> CommonRowPartitioner \<Rightarrow>
   error option \<times> CommonRowPartitioner" where
  "AddSplitsToRowSet nodes p_tree p =
     forS [0..<length nodes]
       (\<lambda>i p.
          let nidx = nid (nodes ! i);
              n_left = GetNLeftElems (partition_builder p) i;
              n_right = GetNRightElems (partition_builder p) i
          in if LeftChild p_tree nidx + 1 \<noteq> RightChild p_tree nidx then Inl CheckFailed
             else
               (case AddSplit nidx (LeftChild p_tree nidx) (RightChild p_tree nidx) n_left n_right
                       (row_set_collection p) of
                  Inl e \<Rightarrow> Inl e
                | Inr c \<Rightarrow> Inr (p\<lparr>row_set_collection := c\<rparr>)))
       p"

text \<open>
  \<^verbatim>\<open>UpdatePosition\<close> (the overload that does the work; the others choose its template
  arguments).  The result is the failure, if any, and the partitioner as the call leaves
  it.
\<close>

definition UpdatePosition ::
  "'f PartitionInput \<Rightarrow> ExpandEntry list \<Rightarrow> 'f RegTree \<Rightarrow> CommonRowPartitioner \<Rightarrow>
   error option \<times> CommonRowPartitioner" where
  "UpdatePosition inp nodes p_tree p =
     (case UpdatePosition_partition inp nodes p_tree p of
        (Some e, p') \<Rightarrow> (Some e, p')
      | (None, p') \<Rightarrow> AddSplitsToRowSet nodes p_tree (UpdatePosition_merge nodes p'))"

section \<open>Well-formed matrices and the histogram of a node\<close>

text \<open>
  The cumulative bin offsets of a matrix: \<open>offsets[0] = 0\<close>, the offsets do not decrease
  over the features, and \<open>offsets[nfeatures]\<close> is the total bin count.
\<close>

definition cut_ptrs_wf :: "GHistIndexMatrix \<Rightarrow> bool" where
  "cut_ptrs_wf gmat \<longleftrightarrow>
     cut_ptrs gmat 0 = 0 \<and>
     list_all (\<lambda>f. cut_ptrs gmat f \<le> cut_ptrs gmat (f + 1)) [0..<nfeatures gmat] \<and>
     unat (cut_ptrs gmat (nfeatures gmat)) = nbins gmat"

text \<open>
  A dense matrix stores feature-local bin indices: for every row of the node and every
  feature, the stored index is below the feature's bin count.
\<close>

definition dense_bins_wf :: "BinTypeSize \<Rightarrow> nat list \<Rightarrow> GHistIndexMatrix \<Rightarrow> bool" where
  "dense_bins_wf bt rid gmat \<longleftrightarrow>
     list_all
       (\<lambda>row_id.
          list_all
            (\<lambda>f. index_data gmat bt (nfeatures gmat * row_id + f)
                  < cut_ptrs gmat (f + 1) - cut_ptrs gmat f)
            [0..<nfeatures gmat])
       rid"

text \<open>
  The condition under which the dispatcher may choose the local kernel: no feature has
  more than \<open>max_num_bins\<close> bins, and \<open>max_num_bins\<close> is at most \<open>kMaxNumBins\<close>.
\<close>

definition local_hist_fits :: "nat \<Rightarrow> GHistIndexMatrix \<Rightarrow> bool" where
  "local_hist_fits kMaxNumBins gmat \<longleftrightarrow>
     list_all (\<lambda>f. unat (cut_ptrs gmat (f + 1) - cut_ptrs gmat f) \<le> max_num_bins gmat)
       [0..<nfeatures gmat] \<and>
     max_num_bins gmat \<le> kMaxNumBins"

text \<open>
  The histogram of a node as the specification defines it: bin \<open>b\<close> holds the sum of the
  gradient pairs of the cells of the node's rows whose global bin is \<open>b\<close>.  The sum is
  the exact one, of a commutative monoid; \<open>pgh\<close> gives what a row adds, a gradient pair or
  any other weight of the row.
\<close>

definition histogram_spec ::
  "bool \<Rightarrow> BinTypeSize \<Rightarrow> (nat \<Rightarrow> 'b::comm_monoid_add) \<Rightarrow> nat list \<Rightarrow>
   GHistIndexMatrix \<Rightarrow> nat \<Rightarrow> 'b" where
  "histogram_spec isDense bt pgh rid gmat b =
     (\<Sum>i < length rid. \<Sum>j < n_columns isDense gmat.
        if unat (bin_index isDense bt gmat (n_columns isDense gmat * rid ! i) j) = b
        then pgh (rid ! i) else 0)"

text \<open>The part of that sum that comes from the rows of one block.\<close>

definition block_spec ::
  "bool \<Rightarrow> BinTypeSize \<Rightarrow> (nat \<Rightarrow> 'b::comm_monoid_add) \<Rightarrow> nat list \<Rightarrow>
   GHistIndexMatrix \<Rightarrow> nat \<Rightarrow> nat \<Rightarrow> nat \<Rightarrow> 'b" where
  "block_spec isDense bt pgh rid gmat bs B b =
     (\<Sum>idx < bs.
        if B * bs + idx < length rid
        then (\<Sum>j < n_columns isDense gmat.
                if unat (bin_index isDense bt gmat
                           (n_columns isDense gmat * rid ! (B * bs + idx)) j) = b
                then pgh (rid ! (B * bs + idx)) else 0)
        else 0)"

text \<open>
  Two ways in which a computation changes a buffer of \<open>n\<close> cells and cannot fail: it
  adds \<open>g k\<close> to every cell \<open>k\<close>; or it stores \<open>v k\<close> in the cells \<open>k\<close> of \<open>W\<close> and leaves
  the others (the buffer being the part \<open>prj\<close> of a state that satisfies \<open>ok\<close>).
\<close>

definition hist_adds ::
  "nat \<Rightarrow> ('a::comm_monoid_add list \<Rightarrow> error + 'a list) \<Rightarrow> (nat \<Rightarrow> 'a) \<Rightarrow> bool" where
  "hist_adds n c g \<longleftrightarrow>
     (\<forall>h. length h = n \<longrightarrow>
        (\<exists>h'. c h = Inr h' \<and> length h' = n \<and> (\<forall>k < n. h' ! k = h ! k + g k)))"

definition writesP ::
  "('s \<Rightarrow> bool) \<Rightarrow> ('s \<Rightarrow> 'a list) \<Rightarrow> ('s \<Rightarrow> error + 's) \<Rightarrow> nat set \<Rightarrow> (nat \<Rightarrow> 'a) \<Rightarrow> bool" where
  "writesP ok prj c W v \<longleftrightarrow>
     (\<forall>s. ok s \<longrightarrow>
        (\<exists>s'. c s = Inr s' \<and> ok s' \<and> length (prj s') = length (prj s) \<and>
              (\<forall>k < length (prj s). prj s' ! k = (if k \<in> W then v k else prj s ! k))))"

section \<open>Additions that round\<close>


text \<open>
  A sum as the exact arithmetic sees it: its value, the sum of the magnitudes of its terms,
  and the number of its terms.  These triples add componentwise.
\<close>

datatype track = Track (exact: real) (magnitude: real) (terms: nat)

instantiation track :: comm_monoid_add
begin
definition zero_track :: track where
  "zero_track = Track 0 0 0"
definition plus_track :: "track \<Rightarrow> track \<Rightarrow> track" where
  "plus_track s t = Track (exact s + exact t) (magnitude s + magnitude t) (terms s + terms t)"
instance
  by standard (simp_all add: zero_track_def plus_track_def ac_simps)
end












section \<open>Cells that have been assigned\<close>

text \<open>
  Whether a cell of device memory has been assigned: a sum is \<open>Defined\<close> when all its terms
  are.  The kernels run on these marks compute, for every cell of the result, whether it
  depends on a cell that was never assigned.
\<close>

datatype defined = Defined | Undefined

instantiation defined :: comm_monoid_add
begin
definition zero_defined :: defined where
  "zero_defined = Defined"
definition plus_defined :: "defined \<Rightarrow> defined \<Rightarrow> defined" where
  "plus_defined s t = (if s = Defined \<and> t = Defined then Defined else Undefined)"
instance
proof
  fix a b c :: defined
  show "a + b + c = a + (b + c)"
    by (cases a; cases b; cases c) (simp_all add: plus_defined_def)
  show "a + b = b + a"
    by (cases a; cases b) (simp_all add: plus_defined_def)
  show "0 + a = a"
    by (cases a) (simp_all add: plus_defined_def zero_defined_def)
qed
end

text \<open>
  The numbers of an \<open>FPType\<close> together with an unknown content, which every addition
  propagates.
\<close>

datatype 'a known = Known 'a | Unknown

instantiation known :: (zero) zero
begin
definition zero_known :: "'a known" where
  "zero_known = Known 0"
instance ..
end

instantiation known :: (plus) plus
begin
definition plus_known :: "'a known \<Rightarrow> 'a known \<Rightarrow> 'a known" where
  "plus_known s t =
     (case s of Known a \<Rightarrow> (case t of Known b \<Rightarrow> Known (a + b) | Unknown \<Rightarrow> Unknown)
      | Unknown \<Rightarrow> Unknown)"
instance ..
end

text \<open>A cell marked \<open>Defined\<close> holds a known number.\<close>

definition is_known :: "'a known \<Rightarrow> defined \<Rightarrow> bool" where
  "is_known t d =
     (case d of Defined \<Rightarrow> (case t of Known v \<Rightarrow> True | Unknown \<Rightarrow> False)
      | Undefined \<Rightarrow> True)"

text \<open>A number agrees with a content when the content is unknown or is that number.\<close>

definition equals_known :: "'a \<Rightarrow> 'a known \<Rightarrow> bool" where
  "equals_known x t = (case t of Known v \<Rightarrow> x = v | Unknown \<Rightarrow> True)"

section \<open>Concrete inputs\<close>

text \<open>A tree whose node 0 splits feature 0 at 2 and whose children are nodes 1 and 3.\<close>

definition example_tree :: "int RegTree" where
  "example_tree =
     \<lparr>SplitIndex = (\<lambda>n. if n = 0 then 0 else 1), SplitCond = (\<lambda>n. if n = 0 then 2 else 7),
      LeftChild = (\<lambda>n. 1), RightChild = (\<lambda>n. 3)\<rparr>"

text \<open>
  Two features with cut values \<open>1, 2, 2\<close> and \<open>5, 6\<close>; the rows with an id of at least 2
  go left.
\<close>

definition example_input :: "int PartitionInput" where
  "example_input =
     \<lparr>float_eq = (=), cut_Ptrs = [0, 3, 5], cut_Values = [1, 2, 2, 5, 6],
      gmat_base_rowid = 0, IsInitialized = True, Threads = 1,
      goes_left = (\<lambda>split_cond node_in_set row. 2 \<le> row),
      mask_rows = (\<lambda>split_conditions z. z),
      collective = \<lparr>others_decision = [], others_missing = [],
                     decision_ok = True, missing_ok = True\<rparr>,
      goes_left_by_mask = (\<lambda>decision_bits missing_bits node_in_set row. False)\<rparr>"

text \<open>
  Four rows, all in the range of node 0; a partition builder without buffers, and a
  column-split helper whose bit vectors have one byte.
\<close>

definition example_partitioner :: CommonRowPartitioner where
  "example_partitioner =
     \<lparr>base_rowid = 0,
      row_set_collection = \<lparr>row_indices = [0, 1, 2, 3], elem_of_each_node = [0 \<mapsto> (0, 4)]\<rparr>,
      is_col_split = False,
      partition_builder = \<lparr>mem_blocks = []\<rparr>,
      column_split_helper =
        \<lparr>decision_storage = [255], missing_storage = [255],
         tloc_decision = [], tloc_missing = []\<rparr>\<rparr>"

text \<open>
  A dense matrix of two features with two bins each, read for the rows 0 and 1: row 0
  has the local bins \<open>0, 1\<close> and row 1 the local bins \<open>1, 0\<close>.
\<close>

definition example_gmat :: GHistIndexMatrix where
  "example_gmat =
     \<lparr>nfeatures = 2, row_stride = 2, nbins = 4, max_num_bins = 2, min_num_bins = 2,
      GetBinTypeSize = kUint8BinsTypeSize,
      index_data = (\<lambda>bt k. if k = 1 \<or> k = 2 then 1 else 0),
      cut_ptrs = (\<lambda>k. if k = 0 then 0 else if k = 1 then 2 else 4)\<rparr>"

text \<open>The gradient pairs \<open>(1, 2)\<close> of row 0 and \<open>(3, 4)\<close> of the other rows.\<close>

definition example_gpair :: "nat \<Rightarrow> int GradientPairInternal" where
  "example_gpair r = (if r = 0 then GradientPairInternal 1 2 else GradientPairInternal 3 4)"

text \<open>Two blocks of one row, work groups of two lanes.\<close>

definition example_dispatcher :: HistDispatcher where
  "example_dispatcher =
     \<lparr>work_group_size = 2, block_size = 1, block_nblocks = 2,
      use_local_hist = True, use_atomics = False\<rparr>"

text \<open>
  A number type whose additions round, for the examples: its finite numbers are the
  integers of magnitude at most 4 and the even integers, and a sum that is none of them is
  moved by one towards zero.
\<close>

datatype toy = Toy (toy_val: int)

definition toy_round :: "int \<Rightarrow> int" where
  "toy_round z = (if \<bar>z\<bar> \<le> 4 \<or> even z then z else if 0 < z then z - 1 else z + 1)"

instantiation toy :: "{zero, plus}"
begin
definition zero_toy :: toy where
  "zero_toy = Toy 0"
definition plus_toy :: "toy \<Rightarrow> toy \<Rightarrow> toy" where
  "plus_toy x y = Toy (toy_round (toy_val x + toy_val y))"
instance ..
end






section \<open>Loops that cannot fail\<close>

lemma forM_append:
  "forM (xs @ ys) body s =
     (case forM xs body s of Inl e \<Rightarrow> Inl e | Inr s' \<Rightarrow> forM ys body s')"
  by (induction xs arbitrary: s) (auto split: sum.splits)

lemma forM_invariant:
  assumes "\<And>x s. x \<in> set xs \<Longrightarrow> P s \<Longrightarrow> \<exists>s'. body x s = Inr s' \<and> P s'"
    and "P s"
  shows "\<exists>s'. forM xs body s = Inr s' \<and> P s'"
  using assms
proof (induction xs arbitrary: s)
  case Nil
  then show ?case by simp
next
  case (Cons x xs)
  from Cons.prems obtain s1 where s1: "body x s = Inr s1" "P s1"
    by (meson list.set_intros(1))
  have "\<exists>s'. forM xs body s1 = Inr s' \<and> P s'"
    by (rule Cons.IH) (use Cons.prems(1) s1 in auto)
  with s1 show ?case by simp
qed

section \<open>Subtraction\<close>

lemma SubtractionHist_loop:
  assumes "n \<le> 2 * length dst" "n \<le> 2 * length a" "n \<le> 2 * length b"
  shows "\<exists>h. forM [0..<n]
           (\<lambda>i pdst.
              case flat_read a i of Inl e \<Rightarrow> Inl e
              | Inr x \<Rightarrow>
                  (case flat_read b i of Inl e \<Rightarrow> Inl e
                   | Inr y \<Rightarrow> flat_write pdst i (x - y)))
           dst = Inr h \<and> length h = length dst \<and>
         (\<forall>k < length dst.
            h ! k =
              (if 2 * k + 1 < n then a ! k - b ! k
               else if 2 * k < n
                 then GradientPairInternal (GetGrad (a ! k) - GetGrad (b ! k)) (GetHess (dst ! k))
                 else dst ! k))"
  using assms
proof (induction n)
  case 0
  then show ?case by simp
next
  case (Suc n)
  then obtain h where h: "forM [0..<n]
           (\<lambda>i pdst.
              case flat_read a i of Inl e \<Rightarrow> Inl e
              | Inr x \<Rightarrow>
                  (case flat_read b i of Inl e \<Rightarrow> Inl e
                   | Inr y \<Rightarrow> flat_write pdst i (x - y)))
           dst = Inr h" "length h = length dst"
    and hk: "\<And>k. k < length dst \<Longrightarrow>
            h ! k =
              (if 2 * k + 1 < n then a ! k - b ! k
               else if 2 * k < n
                 then GradientPairInternal (GetGrad (a ! k) - GetGrad (b ! k)) (GetHess (dst ! k))
                 else dst ! k)"
    by force
  from Suc.prems have lt: "n div 2 < length dst" "n div 2 < length a" "n div 2 < length b"
    by auto
  show ?case
  proof (cases "even n")
    case True
    then have n: "n = 2 * (n div 2)" by auto
    have "2 * k < Suc n \<longleftrightarrow> 2 * k < n \<or> k = n div 2" for k
      using True by presburger
    moreover have "2 * k + 1 < Suc n \<longleftrightarrow> 2 * k + 1 < n" for k
      using True by presburger
    moreover have "\<not> 2 * (n div 2) < n" using n by linarith
    ultimately show ?thesis
      using h lt True hk
      by (auto simp: forM_append flat_read_def flat_write_def nth_list_update)
  next
    case False
    then have n: "n = 2 * (n div 2) + 1" by presburger
    have "2 * k < Suc n \<longleftrightarrow> 2 * k < n" for k
      using False by presburger
    moreover have "2 * k + 1 < Suc n \<longleftrightarrow> 2 * k + 1 < n \<or> k = n div 2" for k
      using False by presburger
    moreover have "\<not> 2 * (n div 2) + 1 < n" "2 * (n div 2) < n" using n by linarith+
    ultimately show ?thesis
      using h lt False hk
      by (auto simp: forM_append flat_read_def flat_write_def nth_list_update
          minus_GradientPairInternal_def)
  qed
qed

lemma SubtractionHist_result:
  assumes "B \<le> length dst" "B \<le> length a" "B \<le> length b"
  shows "\<exists>h. SubtractionHist dst a b B = Inr h \<and> length h = length dst \<and>
           (\<forall>i < B. h ! i = a ! i - b ! i) \<and> (\<forall>i. B \<le> i \<longrightarrow> i < length dst \<longrightarrow> h ! i = dst ! i)"
proof -
  from SubtractionHist_loop [of "2 * B" dst a b] assms
  obtain h where h: "SubtractionHist dst a b B = Inr h" "length h = length dst"
    and hk: "\<And>k. k < length dst \<Longrightarrow>
            h ! k =
              (if 2 * k + 1 < 2 * B then a ! k - b ! k
               else if 2 * k < 2 * B
                 then GradientPairInternal (GetGrad (a ! k) - GetGrad (b ! k)) (GetHess (dst ! k))
                 else dst ! k)"
    unfolding SubtractionHist_def by force
  have "h ! i = a ! i - b ! i" if "i < B" for i
    using hk [of i] that assms by simp
  moreover have "h ! i = dst ! i" if "B \<le> i" "i < length dst" for i
    using hk [of i] that by simp
  ultimately show ?thesis using h by blast
qed


text \<open>
  Claim C5.  When the destination and both sources hold \<open>B\<close> pairs, \<open>SubtractionHist\<close>
  succeeds and leaves \<open>a[i] - b[i]\<close> in \<open>dst[i]\<close> for every \<open>i < B\<close>, in both components;
  and when \<open>sibling\<close> and \<open>parent\<close> have the size of \<open>self\<close>, \<open>SubtractionTrick\<close> succeeds
  and leaves \<open>parent[i] - sibling[i]\<close> in \<open>self[i]\<close> for every \<open>i\<close>.
\<close>

theorem SubtractionHist_SubtractionTrick_correct:
  "(length dst = B \<and> length a = B \<and> length b = B \<longrightarrow>
      (\<exists>h. SubtractionHist dst a b B = Inr h \<and> length h = B \<and>
           (\<forall>i < B. h ! i = a ! i - b ! i \<and>
                    GetGrad (h ! i) = GetGrad (a ! i) - GetGrad (b ! i) \<and>
                    GetHess (h ! i) = GetHess (a ! i) - GetHess (b ! i)))) \<and>
   (length sibling = length self \<and> length parent = length self \<longrightarrow>
      (\<exists>h. SubtractionTrick self sibling parent = Inr h \<and> length h = length self \<and>
           (\<forall>i < length self. h ! i = parent ! i - sibling ! i \<and>
                    GetGrad (h ! i) = GetGrad (parent ! i) - GetGrad (sibling ! i) \<and>
                    GetHess (h ! i) = GetHess (parent ! i) - GetHess (sibling ! i))))"
proof (intro conjI impI)
  assume "length dst = B \<and> length a = B \<and> length b = B"
  then show "\<exists>h. SubtractionHist dst a b B = Inr h \<and> length h = B \<and>
           (\<forall>i < B. h ! i = a ! i - b ! i \<and>
                    GetGrad (h ! i) = GetGrad (a ! i) - GetGrad (b ! i) \<and>
                    GetHess (h ! i) = GetHess (a ! i) - GetHess (b ! i))"
    using SubtractionHist_result [of B dst a b]
    by (auto simp: minus_GradientPairInternal_def)
next
  assume "length sibling = length self \<and> length parent = length self"
  then show "\<exists>h. SubtractionTrick self sibling parent = Inr h \<and> length h = length self \<and>
           (\<forall>i < length self. h ! i = parent ! i - sibling ! i \<and>
                    GetGrad (h ! i) = GetGrad (parent ! i) - GetGrad (sibling ! i) \<and>
                    GetHess (h ! i) = GetHess (parent ! i) - GetHess (sibling ! i))"
    using SubtractionHist_result [of "length self" self parent sibling]
    by (auto simp: SubtractionTrick_def minus_GradientPairInternal_def)
qed

theorem SubtractionHist_SubtractionTrick_witness:
  "(\<exists>h. SubtractionHist [GradientPairInternal 0 0, GradientPairInternal 9 9]
           [GradientPairInternal 5 7, GradientPairInternal 1 2]
           [GradientPairInternal 2 3, GradientPairInternal 1 1] 2 = Inr h \<and>
        h ! 0 = GradientPairInternal (3 :: int) 4 \<and> h ! 1 = GradientPairInternal 0 1) \<and>
   (\<exists>h. SubtractionTrick [GradientPairInternal 0 0, GradientPairInternal 9 9]
           [GradientPairInternal 2 3, GradientPairInternal 1 1]
           [GradientPairInternal 5 7, GradientPairInternal 1 2] = Inr h \<and>
        h ! 0 = GradientPairInternal (3 :: int) 4 \<and> h ! 1 = GradientPairInternal 0 1)"
proof -
  let ?z = "[GradientPairInternal 0 0, GradientPairInternal (9 :: int) 9]"
  let ?p = "[GradientPairInternal 5 7, GradientPairInternal (1 :: int) 2]"
  let ?s = "[GradientPairInternal 2 3, GradientPairInternal (1 :: int) 1]"
  note inst = SubtractionHist_SubtractionTrick_correct [of ?z 2 ?p ?s ?s ?z ?p]
  from inst obtain h where h: "SubtractionHist ?z ?p ?s 2 = Inr h"
    "\<forall>i < 2. h ! i = ?p ! i - ?s ! i"
    by auto
  from inst obtain h' where h': "SubtractionTrick ?z ?s ?p = Inr h'"
    "\<forall>i < 2. h' ! i = ?p ! i - ?s ! i"
    by auto
  have "(0 :: nat) < 2" "(1 :: nat) < 2" by simp_all
  with h(2) h'(2) have "h ! 0 = ?p ! 0 - ?s ! 0" "h ! 1 = ?p ! 1 - ?s ! 1"
    "h' ! 0 = ?p ! 0 - ?s ! 0" "h' ! 1 = ?p ! 1 - ?s ! 1"
    by blast+
  then show ?thesis using h(1) h'(1)
    by (simp add: minus_GradientPairInternal_def)
qed

section \<open>Split conditions and column split\<close>

lemma forM_store_upt:
  assumes "\<And>i s. i < n \<Longrightarrow> length s = L \<Longrightarrow> body i s = store s i (g i)"
    and "n \<le> L" "length s = L"
  shows "forM [0..<n] body s = Inr (map g [0..<n] @ drop n s)"
  using assms(1,2)
proof (induction n)
  case 0
  then show ?case by simp
next
  case (Suc n)
  have len: "length (map g [0..<n] @ drop n s) = L"
    using Suc.prems assms(3) by simp
  have "drop n s = s ! n # drop (Suc n) s"
    using Suc.prems assms(3) by (simp add: Cons_nth_drop_Suc)
  then have upd: "(map g [0..<n] @ drop n s)[n := g n] = map g [0..<Suc n] @ drop (Suc n) s"
    by (simp add: list_update_append)
  have IH: "forM [0..<n] body s = Inr (map g [0..<n] @ drop n s)"
    using Suc by simp
  have "body n (map g [0..<n] @ drop n s) = store (map g [0..<n] @ drop n s) n (g n)"
    using Suc.prems(1) [of n] len by simp
  also have "\<dots> = Inr (map g [0..<Suc n] @ drop (Suc n) s)"
    using len Suc.prems(2) upd by (simp add: store_def)
  finally show ?case
    by (simp add: forM_append IH)
qed

lemma sint_word_of_nat_32:
  assumes "n < 2 ^ 31"
  shows "sint (word_of_nat n :: 32 word) = int n"
  using assms
  by (simp add: sint_uint signed_take_bit_int_eq_self unsigned_of_nat take_bit_nat_eq_self)

lemma FindSplitConditions_inner:
  assumes "hi \<le> length vals" "hi < 2 ^ 31"
  shows "forM [lo..<hi]
           (\<lambda>bound split_cond.
              case load vals bound of
                Inl e \<Rightarrow> Inl e
              | Inr v \<Rightarrow>
                  Inr (if feq sp v then static_cast_bst_bin_t (word_of_nat bound)
                       else split_cond))
           init =
         Inr (if {b. lo \<le> b \<and> b < hi \<and> feq sp (vals ! b)} = {} then init
              else int (Max {b. lo \<le> b \<and> b < hi \<and> feq sp (vals ! b)}))"
proof -
  define body where "body = (\<lambda>bound (split_cond :: int).
              case load vals bound of
                Inl e \<Rightarrow> Inl e
              | Inr v \<Rightarrow>
                  Inr (if feq sp v then static_cast_bst_bin_t (word_of_nat bound)
                       else split_cond))"
  let ?S = "\<lambda>h. {b. lo \<le> b \<and> b < h \<and> feq sp (vals ! b)}"
  have "forM [lo..<hi] body init = Inr (if ?S hi = {} then init else int (Max (?S hi)))"
    using assms
  proof (induction hi)
    case 0
    then show ?case by simp
  next
    case (Suc hi)
    show ?case
    proof (cases "lo \<le> hi")
      case False
      then have "?S (Suc hi) = {}" by auto
      with False show ?thesis by simp
    next
      case True
      have step: "?S (Suc hi) = (if feq sp (vals ! hi) then insert hi (?S hi) else ?S hi)"
        using True by (auto simp: less_Suc_eq)
      have mx: "Max (insert hi (?S hi)) = hi"
        by (rule Max_eqI) auto
      have cast: "static_cast_bst_bin_t (word_of_nat hi) = int hi"
        using Suc.prems by (simp add: static_cast_bst_bin_t_def sint_word_of_nat_32)
      have IH: "forM [lo..<hi] body init = Inr (if ?S hi = {} then init else int (Max (?S hi)))"
        using Suc by simp
      have b: "body hi s = Inr (if feq sp (vals ! hi) then int hi else s)" for s
        using Suc.prems by (simp add: body_def load_def cast)
      have "forM [lo..<Suc hi] body init =
          Inr (if feq sp (vals ! hi) then int hi
               else (if ?S hi = {} then init else int (Max (?S hi))))"
        using True by (simp add: forM_append IH b)
      then show ?thesis
        unfolding step by (auto simp: mx)
    qed
  qed
  then show ?thesis by (simp add: body_def)
qed


text \<open>
  Claim C3.  When every node's upper bound passes the \<open>CHECK_LT\<close> and every index is inside
  its vector, \<open>FindSplitConditions\<close> sets \<open>split_conditions[i]\<close>, for every node \<open>i\<close> with
  split feature \<open>f\<close> and split value \<open>split_pt\<close>, to the greatest \<open>b\<close> in
  \<open>[ptrs[f], ptrs[f + 1])\<close> with \<open>split_pt == cut_values[b]\<close>, and to \<open>-1\<close> when there is
  none (as when the range is empty).
\<close>

theorem FindSplitConditions_correct:
  assumes "length nodes \<le> length split_conditions"
    and "\<forall>i < length nodes.
           SplitIndex tree (nid (nodes ! i)) + 1 < length ptrs \<and>
           ptrs ! (SplitIndex tree (nid (nodes ! i)) + 1) < 0x7FFFFFFF \<and>
           unat (ptrs ! (SplitIndex tree (nid (nodes ! i)) + 1)) \<le> length vals"
  shows "\<exists>sc. FindSplitConditions feq nodes tree ptrs vals split_conditions = Inr sc \<and>
           length sc = length split_conditions \<and>
           (\<forall>i < length nodes.
              sc ! i =
                (let f = SplitIndex tree (nid (nodes ! i));
                     S = {b. unat (ptrs ! f) \<le> b \<and> b < unat (ptrs ! (f + 1)) \<and>
                             feq (SplitCond tree (nid (nodes ! i))) (vals ! b)}
                 in if S = {} then - 1 else int (Max S)))"
proof -
  define g where "g = (\<lambda>i.
                (let f = SplitIndex tree (nid (nodes ! i));
                     S = {b. unat (ptrs ! f) \<le> b \<and> b < unat (ptrs ! (f + 1)) \<and>
                             feq (SplitCond tree (nid (nodes ! i))) (vals ! b)}
                 in if S = {} then - 1 else int (Max S)))"
  define body where "body = (\<lambda>i split_conditions.
          let nidx = nid (nodes ! i);
              fidx = SplitIndex tree nidx;
              split_pt = SplitCond tree nidx
          in case load ptrs fidx of
               Inl e \<Rightarrow> Inl e
             | Inr lower_bound \<Rightarrow>
                 (case load ptrs (fidx + 1) of
                    Inl e \<Rightarrow> Inl e
                  | Inr upper_bound \<Rightarrow>
                      if \<not> upper_bound < 0x7FFFFFFF then Inl CheckFailed
                      else
                        (case forM [unat lower_bound..<unat upper_bound]
                                (\<lambda>bound split_cond.
                                   case load vals bound of
                                     Inl e \<Rightarrow> Inl e
                                   | Inr v \<Rightarrow>
                                       Inr (if feq split_pt v
                                            then static_cast_bst_bin_t (word_of_nat bound)
                                            else split_cond))
                                (- 1) of
                           Inl e \<Rightarrow> Inl e
                         | Inr split_cond \<Rightarrow> store split_conditions i split_cond)))"
  have b: "body i s = store s i (g i)" if "i < length nodes" for i s
  proof -
    let ?f = "SplitIndex tree (nid (nodes ! i))"
    from assms(2) that have f: "?f + 1 < length ptrs" "ptrs ! (?f + 1) < 0x7FFFFFFF"
      "unat (ptrs ! (?f + 1)) \<le> length vals"
      by blast+
    from f(2) have "unat (ptrs ! (?f + 1)) < 2 ^ 31"
      by (simp add: word_less_nat_alt)
    note inner = FindSplitConditions_inner [OF f(3) this,
        of "unat (ptrs ! ?f)" feq "SplitCond tree (nid (nodes ! i))" "- 1"]
    have l1: "load ptrs ?f = Inr (ptrs ! ?f)" "load ptrs (?f + 1) = Inr (ptrs ! (?f + 1))"
      using f(1) by (simp_all add: load_def)
    show ?thesis
      unfolding body_def g_def Let_def l1 sum.case inner using f(2) by simp
  qed
  have "forM [0..<length nodes] body split_conditions =
      Inr (map g [0..<length nodes] @ drop (length nodes) split_conditions)"
    by (rule forM_store_upt [where L = "length split_conditions"]) (use b assms(1) in auto)
  then have "FindSplitConditions feq nodes tree ptrs vals split_conditions =
      Inr (map g [0..<length nodes] @ drop (length nodes) split_conditions)"
    by (simp add: FindSplitConditions_def body_def)
  moreover have "length (map g [0..<length nodes] @ drop (length nodes) split_conditions) =
      length split_conditions"
    using assms(1) by simp
  moreover have "(map g [0..<length nodes] @ drop (length nodes) split_conditions) ! i = g i"
    if "i < length nodes" for i
    using that by (simp add: nth_append)
  ultimately show ?thesis
    unfolding g_def by blast
qed


lemma example_FindSplitConditions:
  "FindSplitConditions (=) [\<lparr>nid = 0\<rparr>, \<lparr>nid = 1\<rparr>] example_tree [0, 3, 5] [1, 2, 2, 5, 6]
     [0, 0] = Inr [2, - 1]"
  by (simp add: FindSplitConditions_def example_tree_def load_def store_def upt_rec
      static_cast_bst_bin_t_def)

theorem FindSplitConditions_witness:
  "FindSplitConditions (=) [\<lparr>nid = 0\<rparr>, \<lparr>nid = 1\<rparr>] example_tree [0, 3, 5] [1, 2, 2, 5, 6]
     [0, 0] = Inr [2, - 1] \<and>
   (\<exists>sc. FindSplitConditions (=) [\<lparr>nid = 0\<rparr>, \<lparr>nid = 1\<rparr>] example_tree [0, 3, 5]
           [1, 2, 2, 5, 6] [0, 0] = Inr sc \<and>
         sc ! 0 = int (Max {b. b < 3 \<and> 2 = [1, 2, 2, 5, 6 :: int] ! b}) \<and>
         sc ! 1 = - 1)"
proof -
  let ?nodes = "[\<lparr>nid = 0\<rparr>, \<lparr>nid = 1\<rparr>]"
  have h1: "length ?nodes \<le> length [0, 0 :: int]" by simp
  have h2: "\<forall>i < length ?nodes.
           SplitIndex example_tree (nid (?nodes ! i)) + 1 < length [0, 3, 5 :: 32 word] \<and>
           [0, 3, 5 :: 32 word] ! (SplitIndex example_tree (nid (?nodes ! i)) + 1) < 0x7FFFFFFF \<and>
           unat ([0, 3, 5 :: 32 word] ! (SplitIndex example_tree (nid (?nodes ! i)) + 1))
             \<le> length [1, 2, 2, 5, 6 :: int]"
    by (simp add: example_tree_def less_Suc_eq nth_Cons')
  from FindSplitConditions_correct [OF h1 h2, of "(=)"] obtain sc where
    sc: "FindSplitConditions (=) ?nodes example_tree [0, 3, 5] [1, 2, 2, 5, 6] [0, 0] = Inr sc"
    and ch: "\<forall>i < length ?nodes.
              sc ! i =
                (let f = SplitIndex example_tree (nid (?nodes ! i));
                     S = {b. unat ([0, 3, 5 :: 32 word] ! f) \<le> b \<and>
                             b < unat ([0, 3, 5 :: 32 word] ! (f + 1)) \<and>
                             SplitCond example_tree (nid (?nodes ! i)) = [1, 2, 2, 5, 6] ! b}
                 in if S = {} then - 1 else int (Max S))"
    by blast
  have "(1 :: nat) \<in> {b. b < 3 \<and> 2 = [1, 2, 2, 5, 6 :: int] ! b}" by simp
  then have ne: "{b. b < 3 \<and> 2 = [1, 2, 2, 5, 6 :: int] ! b} \<noteq> {}" by blast
  have e1: "{b. 3 \<le> b \<and> b < 5 \<and> (7 :: int) = [1, 2, 2, 5, 6] ! b} = {}"
    by (auto simp: nth_Cons' less_Suc_eq numeral_eq_Suc)
  from ch have "sc ! 0 = int (Max {b. b < 3 \<and> 2 = [1, 2, 2, 5, 6 :: int] ! b})"
    using ne by (simp add: example_tree_def Let_def)
  moreover from ch have "sc ! 1 = - 1"
    using e1 by (simp add: example_tree_def Let_def)
  ultimately show ?thesis
    using sc example_FindSplitConditions by simp
qed

lemma make_tloc_Inr:
  assumes "t < m" "length td = n * m"
  shows "make_tloc n td t = Inr (take n (drop (n * t) td))"
proof -
  have "n * t + n = n * Suc t" by simp
  also have "\<dots> \<le> n * m" using assms(1) by (intro mult_le_mono2) simp
  finally show ?thesis using assms(2) by (simp add: make_tloc_def)
qed

lemma tloc_nth:
  assumes "t < m" "length td = n * m" "k < n"
  shows "take n (drop (n * t) td) ! k = td ! (n * t + k)"
proof -
  have "n * t + n = n * Suc t" by simp
  also have "\<dots> \<le> n * m" using assms(1) by (intro mult_le_mono2) simp
  finally have "n * t + n \<le> length td" using assms(2) by simp
  then have "n * t \<le> length td" by simp
  then show ?thesis using assms(3) by (simp add: nth_drop)
qed

lemma tloc_length:
  assumes "t < m" "length td = n * m"
  shows "length (take n (drop (n * t) td)) = n"
proof -
  have "n * t + n = n * Suc t" by simp
  also have "\<dots> \<le> n * m" using assms(1) by (intro mult_le_mono2) simp
  finally show ?thesis using assms(2) by simp
qed

lemma bitfield_or_same_length:
  assumes "length a = length b"
  shows "length (bitfield_or a b) = length a"
    and "k < length a \<Longrightarrow> bitfield_or a b ! k = a ! k OR b ! k"
  using assms by (simp_all add: bitfield_or_def)

lemma reduce_thread_local:
  assumes "length td = n * m" "length tm = n * m" "j < m"
  shows "\<exists>d mi. forM [1..<Suc j]
            (\<lambda>tidx (decision, missing).
               case make_tloc n td tidx of
                 Inl e \<Rightarrow> Inl e
               | Inr d \<Rightarrow>
                   (case make_tloc n tm tidx of
                      Inl e \<Rightarrow> Inl e
                    | Inr m \<Rightarrow> Inr (bitfield_or decision d, bitfield_or missing m)))
            (take n (drop (n * 0) td), take n (drop (n * 0) tm)) = Inr (d, mi) \<and>
          length d = n \<and> length mi = n \<and>
          (\<forall>k < n. \<forall>i. bit (d ! k) i \<longleftrightarrow> (\<exists>t \<le> j. bit (td ! (n * t + k)) i)) \<and>
          (\<forall>k < n. \<forall>i. bit (mi ! k) i \<longleftrightarrow> (\<exists>t \<le> j. bit (tm ! (n * t + k)) i))"
  using assms(3)
proof (induction j)
  case 0
  then show ?case
    using tloc_length [of 0 m td n] tloc_length [of 0 m tm n]
      tloc_nth [of 0 m td n] tloc_nth [of 0 m tm n] assms(1,2)
    by simp
next
  case (Suc j)
  define body where "body = (\<lambda>tidx (decision, missing).
               case make_tloc n td tidx of
                 Inl e \<Rightarrow> Inl e
               | Inr d \<Rightarrow>
                   (case make_tloc n tm tidx of
                      Inl e \<Rightarrow> Inl e
                    | Inr m \<Rightarrow> Inr (bitfield_or decision d, bitfield_or missing m)))"
  have "j < m" using Suc.prems by simp
  from Suc.IH [OF this] obtain d mi where
    run: "forM [1..<Suc j] body (take n (drop (n * 0) td), take n (drop (n * 0) tm)) = Inr (d, mi)"
    and len: "length d = n" "length mi = n"
    and dk': "\<forall>k < n. \<forall>i. bit (d ! k) i \<longleftrightarrow> (\<exists>t \<le> j. bit (td ! (n * t + k)) i)"
    and mk': "\<forall>k < n. \<forall>i. bit (mi ! k) i \<longleftrightarrow> (\<exists>t \<le> j. bit (tm ! (n * t + k)) i)"
    unfolding body_def by blast
  have dk: "bit (d ! k) i \<longleftrightarrow> (\<exists>t \<le> j. bit (td ! (n * t + k)) i)" if "k < n" for k i
    using dk' that by blast
  have mk: "bit (mi ! k) i \<longleftrightarrow> (\<exists>t \<le> j. bit (tm ! (n * t + k)) i)" if "k < n" for k i
    using mk' that by blast
  let ?d = "take n (drop (n * Suc j) td)" and ?m = "take n (drop (n * Suc j) tm)"
  have ld: "length ?d = n" "length ?m = n"
    using tloc_length [OF Suc.prems assms(1)] tloc_length [OF Suc.prems assms(2)] by simp_all
  have step: "body (Suc j) (d, mi) = Inr (bitfield_or d ?d, bitfield_or mi ?m)"
    unfolding body_def
    by (simp add: make_tloc_Inr [OF Suc.prems assms(1)] make_tloc_Inr [OF Suc.prems assms(2)])
  have run': "forM [1..<Suc (Suc j)] body (take n (drop (n * 0) td), take n (drop (n * 0) tm)) =
      Inr (bitfield_or d ?d, bitfield_or mi ?m)"
    using run step by (simp add: forM_append)
  have "bit (bitfield_or d ?d ! k) i \<longleftrightarrow> (\<exists>t \<le> Suc j. bit (td ! (n * t + k)) i)"
    if "k < n" for k i
  proof -
    have "bit (bitfield_or d ?d ! k) i \<longleftrightarrow> bit (d ! k) i \<or> bit (td ! (n * Suc j + k)) i"
      using that len ld tloc_nth [OF Suc.prems assms(1) that]
      by (simp add: bitfield_or_same_length bit_or_iff)
    also have "\<dots> \<longleftrightarrow> (\<exists>t \<le> Suc j. bit (td ! (n * t + k)) i)"
      unfolding dk [OF that] le_Suc_eq by blast
    finally show ?thesis .
  qed
  moreover have "bit (bitfield_or mi ?m ! k) i \<longleftrightarrow> (\<exists>t \<le> Suc j. bit (tm ! (n * t + k)) i)"
    if "k < n" for k i
  proof -
    have "bit (bitfield_or mi ?m ! k) i \<longleftrightarrow> bit (mi ! k) i \<or> bit (tm ! (n * Suc j + k)) i"
      using that len ld tloc_nth [OF Suc.prems assms(2) that]
      by (simp add: bitfield_or_same_length bit_or_iff)
    also have "\<dots> \<longleftrightarrow> (\<exists>t \<le> Suc j. bit (tm ! (n * t + k)) i)"
      unfolding mk [OF that] le_Suc_eq by blast
    finally show ?thesis .
  qed
  moreover have "length (bitfield_or d ?d) = n" "length (bitfield_or mi ?m) = n"
    using len ld by (simp_all add: bitfield_or_same_length)
  ultimately show ?case
    using run' unfolding body_def by blast
qed

lemma Allreduce_OR_bits:
  assumes "\<forall>b \<in> set others. length b = length buf"
  shows "length (fold (\<lambda>b acc. map2 (OR) acc b) others buf) = length buf \<and>
    (\<forall>k < length buf. \<forall>i.
       bit (fold (\<lambda>b acc. map2 (OR) acc b) others buf ! k) i \<longleftrightarrow>
       bit ((buf :: 8 word list) ! k) i \<or> (\<exists>b \<in> set others. bit (b ! k) i))"
  using assms
proof (induction others arbitrary: buf)
  case Nil
  then show ?case by simp
next
  case (Cons b others)
  have "\<forall>c \<in> set others. length c = length (map2 (OR) buf b)"
    using Cons.prems by simp
  from Cons.IH [OF this] Cons.prems show ?case
    by (auto simp: bit_or_iff)
qed

lemma Allreduce_AND_bits:
  assumes "\<forall>b \<in> set others. length b = length buf"
  shows "length (fold (\<lambda>b acc. map2 (AND) acc b) others buf) = length buf \<and>
    (\<forall>k < length buf. \<forall>i.
       bit (fold (\<lambda>b acc. map2 (AND) acc b) others buf ! k) i \<longleftrightarrow>
       bit ((buf :: 8 word list) ! k) i \<and> (\<forall>b \<in> set others. bit (b ! k) i))"
  using assms
proof (induction others arbitrary: buf)
  case Nil
  then show ?case by simp
next
  case (Cons b others)
  have "\<forall>c \<in> set others. length c = length (map2 (AND) buf b)"
    using Cons.prems by simp
  from Cons.IH [OF this] Cons.prems show ?case
    by (auto simp: bit_and_iff)
qed

text \<open>
  Claim C4.  In \<open>ColumnSplitHelper::Partition\<close> the thread-local replicas are combined by
  bitwise OR, the decision vector is then combined across the workers by bitwise OR and
  the missing vector by bitwise AND, and the second pass receives these aggregated bits:
  a decision bit is set exactly when some thread of this worker or some other worker
  has set it, and a missing bit exactly when some thread of this worker has set it and
  every other worker has it set.
\<close>

theorem ColumnSplitHelper_Partition_aggregates:
  assumes "0 < n_threads"
    and "first_pass (replicate (n * n_threads) 0, replicate (n * n_threads) 0) = (td, tm)"
    and "length td = n * n_threads" "length tm = n * n_threads"
    and "decision_ok coll" "missing_ok coll"
    and "\<forall>b \<in> set (others_decision coll). length b = n"
    and "\<forall>b \<in> set (others_missing coll). length b = n"
  shows "\<exists>decision_bits missing_bits.
           ColumnSplitHelper_Partition n n_threads first_pass coll partition_by_mask =
             Inr (partition_by_mask decision_bits missing_bits) \<and>
           length decision_bits = n \<and> length missing_bits = n \<and>
           (\<forall>k < n. \<forall>i.
              bit (decision_bits ! k) i \<longleftrightarrow>
                (\<exists>t < n_threads. bit (td ! (n * t + k)) i) \<or>
                (\<exists>b \<in> set (others_decision coll). bit (b ! k) i)) \<and>
           (\<forall>k < n. \<forall>i.
              bit (missing_bits ! k) i \<longleftrightarrow>
                (\<exists>t < n_threads. bit (tm ! (n * t + k)) i) \<and>
                (\<forall>b \<in> set (others_missing coll). bit (b ! k) i))"
proof -
  obtain j where j: "n_threads = Suc j" using assms(1) by (cases n_threads) auto
  have jm: "j < n_threads" using j by simp
  from reduce_thread_local [OF assms(3,4) jm] obtain d mi where
    run': "forM [1..<Suc j]
            (\<lambda>tidx (decision, missing).
               case make_tloc n td tidx of
                 Inl e \<Rightarrow> Inl e
               | Inr d \<Rightarrow>
                   (case make_tloc n tm tidx of
                      Inl e \<Rightarrow> Inl e
                    | Inr m \<Rightarrow> Inr (bitfield_or decision d, bitfield_or missing m)))
            (take n (drop (n * 0) td), take n (drop (n * 0) tm)) = Inr (d, mi)"
    and len: "length d = n" "length mi = n"
    and dk': "\<forall>k < n. \<forall>i. bit (d ! k) i \<longleftrightarrow> (\<exists>t \<le> j. bit (td ! (n * t + k)) i)"
    and mk': "\<forall>k < n. \<forall>i. bit (mi ! k) i \<longleftrightarrow> (\<exists>t \<le> j. bit (tm ! (n * t + k)) i)"
    by blast
  note run = run' [folded j]
  have dk: "bit (d ! k) i \<longleftrightarrow> (\<exists>t < n_threads. bit (td ! (n * t + k)) i)" if "k < n" for k i
    using dk' that unfolding j less_Suc_eq_le by blast
  have mk: "bit (mi ! k) i \<longleftrightarrow> (\<exists>t < n_threads. bit (tm ! (n * t + k)) i)" if "k < n" for k i
    using mk' that unfolding j less_Suc_eq_le by blast
  let ?dec = "fold (\<lambda>b acc. map2 (OR) acc b) (others_decision coll) d"
  let ?mis = "fold (\<lambda>b acc. map2 (AND) acc b) (others_missing coll) mi"
  have t0: "make_tloc n td 0 = Inr (take n (drop (n * 0) td))"
    "make_tloc n tm 0 = Inr (take n (drop (n * 0) tm))"
    using make_tloc_Inr [OF assms(1) assms(3)] make_tloc_Inr [OF assms(1) assms(4)] by simp_all
  have res: "ColumnSplitHelper_Partition n n_threads first_pass coll partition_by_mask =
      Inr (partition_by_mask ?dec ?mis)"
    unfolding ColumnSplitHelper_Partition_def assms(2) prod.case Let_def t0 sum.case run
    using len assms(5,6) by (simp add: Allreduce_def)
  have od: "\<forall>b \<in> set (others_decision coll). length b = length d"
    and om: "\<forall>b \<in> set (others_missing coll). length b = length mi"
    using assms(7,8) len by simp_all
  show ?thesis
    using res Allreduce_OR_bits [OF od] Allreduce_AND_bits [OF om] len dk mk
    by (intro exI [of _ ?dec] exI [of _ ?mis]) simp
qed

theorem ColumnSplitHelper_Partition_witness:
  "ColumnSplitHelper_Partition 1 2 (\<lambda>z. ([1, 2], [5, 3]))
      \<lparr>others_decision = [[4]], others_missing = [[6]], decision_ok = True, missing_ok = True\<rparr>
      Pair = Inr ([7], [6]) \<and>
   (\<exists>decision_bits missing_bits.
      ColumnSplitHelper_Partition 1 2 (\<lambda>z. ([1, 2], [5, 3]))
        \<lparr>others_decision = [[4]], others_missing = [[6]], decision_ok = True, missing_ok = True\<rparr>
        Pair = Inr (decision_bits, missing_bits) \<and>
      length decision_bits = 1 \<and> length missing_bits = 1)"
proof -
  let ?coll = "\<lparr>others_decision = [[4]], others_missing = [[6]],
                 decision_ok = True, missing_ok = True\<rparr>"
  let ?first = "\<lambda>z :: 8 word list \<times> 8 word list. ([1, 2] :: 8 word list, [5, 3] :: 8 word list)"
  have run: "ColumnSplitHelper_Partition 1 2 ?first ?coll Pair = Inr ([7], [6])"
    by (simp add: ColumnSplitHelper_Partition_def make_tloc_def bitfield_or_def Allreduce_def
        upt_rec)
  have "\<exists>decision_bits missing_bits.
           ColumnSplitHelper_Partition 1 2 ?first ?coll Pair =
             Inr (Pair decision_bits missing_bits) \<and>
           length decision_bits = 1 \<and> length missing_bits = 1"
    using ColumnSplitHelper_Partition_aggregates
      [of 2 ?first 1 "[1, 2]" "[5, 3]" ?coll Pair]
    by simp blast
  with run show ?thesis by blast
qed


section \<open>Atomicity of the position update\<close>

lemma ex_fsc: "FindSplitConditions (=) [\<lparr>nid = 0\<rparr>] example_tree [0, 3, 5] [1, 2, 2, 5, 6 :: int] [0]
   = Inr [2]"
  by (simp add: FindSplitConditions_def example_tree_def load_def store_def upt_rec
      static_cast_bst_bin_t_def)

lemma ex_part: "UpdatePosition_partition example_input [\<lparr>nid = 0\<rparr>] example_tree example_partitioner
   = (None, example_partitioner\<lparr>partition_builder := \<lparr>mem_blocks = [[([2, 3], [0, 1])]]\<rparr>\<rparr>)"
  by (simp add: UpdatePosition_partition_def example_input_def example_partitioner_def ex_fsc
      BlockedSpace2d_def Elem_rows_def n_tasks_of_def kPartitionBlockSize_def partition_task_def
      partition_block_def PartitionBuilder_Init_def PartitionBuilder_Partition_def upt_rec)

lemma ex_merge:
  "UpdatePosition_merge [\<lparr>nid = 0\<rparr>]
     (example_partitioner\<lparr>partition_builder := \<lparr>mem_blocks = [[([2, 3], [0, 1])]]\<rparr>\<rparr>)
   = example_partitioner
       \<lparr>row_set_collection := \<lparr>row_indices = [2, 3, 0, 1], elem_of_each_node = [0 \<mapsto> (0, 4)]\<rparr>,
        partition_builder := \<lparr>mem_blocks = [[([2, 3], [0, 1])]]\<rparr>\<rparr>"
  by (simp add: UpdatePosition_merge_def example_partitioner_def MergeToArray_def upt_rec)

text \<open>
  Claim C8, as stated, fails: \<open>MergeToArray\<close> (step 4) writes the shared row-index buffer
  before \<open>AddSplitsToRowSet\<close> (step 5) runs.  On four rows owned by node 0, whose children
  in the tree are nodes 1 and 3, the \<open>CHECK_EQ\<close> of \<open>AddSplitsToRowSet\<close> fails before any
  \<open>AddSplit\<close>: the node ranges are as before, and the buffer \<open>0, 1, 2, 3\<close> has become
  \<open>2, 3, 0, 1\<close>.
\<close>

theorem UpdatePosition_mutates_before_AddSplit:
  "fst (UpdatePosition example_input [\<lparr>nid = 0\<rparr>] example_tree example_partitioner)
     = Some CheckFailed \<and>
   elem_of_each_node (row_set_collection
     (snd (UpdatePosition example_input [\<lparr>nid = 0\<rparr>] example_tree example_partitioner)))
     = elem_of_each_node (row_set_collection example_partitioner) \<and>
   row_indices (row_set_collection example_partitioner) = [0, 1, 2, 3] \<and>
   row_indices (row_set_collection
     (snd (UpdatePosition example_input [\<lparr>nid = 0\<rparr>] example_tree example_partitioner)))
     = [2, 3, 0, 1]"
  unfolding UpdatePosition_def ex_part prod.case option.case ex_merge
  by (simp add: AddSplitsToRowSet_def example_tree_def example_partitioner_def upt_rec)

lemma forS_preserves:
  assumes "\<And>x s s'. x \<in> set xs \<Longrightarrow> body x s = Inr s' \<Longrightarrow> f s' = f s"
  shows "f (snd (forS xs body s)) = f s"
  using assms
proof (induction xs arbitrary: s)
  case Nil
  then show ?case by simp
next
  case (Cons x xs)
  show ?case
  proof (cases "body x s")
    case (Inl e)
    then show ?thesis by simp
  next
    case (Inr s1)
    have "f (snd (forS xs body s1)) = f s1"
      by (rule Cons.IH) (use Cons.prems in auto)
    moreover have "f s1 = f s" using Cons.prems [of x s s1] Inr by simp
    ultimately show ?thesis using Inr by simp
  qed
qed

lemma partition_block_frame:
  assumes "partition_block decide nodes task p = Inr p'"
  shows "row_set_collection p' = row_set_collection p"
  using assms
  by (auto simp add: partition_block_def split: prod.splits sum.splits)

lemma UpdatePosition_partition_frame:
  "row_set_collection (snd (UpdatePosition_partition inp nodes p_tree p)) = row_set_collection p"
proof -
  have blocks: "row_set_collection (snd (forS space (partition_block decide nodes) q)) =
      row_set_collection q" for space decide q
    by (rule forS_preserves) (rule partition_block_frame)
  show ?thesis
    unfolding UpdatePosition_partition_def Let_def
    by (simp add: blocks split: sum.splits prod.splits option.splits)
qed

text \<open>
  The members of the helper as \<open>ColumnSplitHelper_Partition_members\<close> leaves them hold the
  bits that \<open>ColumnSplitHelper_Partition\<close> hands to the second pass, and the two fail
  together.
\<close>

lemma ColumnSplitHelper_Partition_members_result:
  "ColumnSplitHelper_Partition (length (decision_storage h)) n_threads first_pass coll pbm =
     (case ColumnSplitHelper_Partition_members n_threads first_pass coll h of
        (Some e, h') \<Rightarrow> Inl e
      | (None, h') \<Rightarrow> Inr (pbm (decision_storage h') (missing_storage h')))"
  unfolding ColumnSplitHelper_Partition_def ColumnSplitHelper_Partition_members_def Let_def
  by (simp split: sum.splits prod.splits)

lemma UpdatePosition_merge_keeps_ranges:
  "elem_of_each_node (row_set_collection (UpdatePosition_merge nodes p)) =
     elem_of_each_node (row_set_collection p) \<and>
   base_rowid (UpdatePosition_merge nodes p) = base_rowid p \<and>
   is_col_split (UpdatePosition_merge nodes p) = is_col_split p \<and>
   partition_builder (UpdatePosition_merge nodes p) = partition_builder p \<and>
   column_split_helper (UpdatePosition_merge nodes p) = column_split_helper p"
proof -
  define step :: "nat \<Rightarrow> CommonRowPartitioner \<Rightarrow> CommonRowPartitioner"
    where "step = (\<lambda>node_in_set p.
               case elem_of_each_node (row_set_collection p) (nid (nodes ! node_in_set)) of
                 None \<Rightarrow> p
               | Some (b, e) \<Rightarrow>
                   p\<lparr>row_set_collection :=
                       (row_set_collection p)
                         \<lparr>row_indices :=
                            MergeToArray (mem_blocks (partition_builder p) ! node_in_set) b
                              (row_indices (row_set_collection p))\<rparr>\<rparr>)"
  have "elem_of_each_node (row_set_collection (fold step xs p)) =
          elem_of_each_node (row_set_collection p) \<and>
        base_rowid (fold step xs p) = base_rowid p \<and>
        is_col_split (fold step xs p) = is_col_split p \<and>
        partition_builder (fold step xs p) = partition_builder p \<and>
        column_split_helper (fold step xs p) = column_split_helper p" for xs
    by (induction xs arbitrary: p) (auto simp add: step_def split: option.splits)
  then show ?thesis
    unfolding UpdatePosition_merge_def step_def by blast
qed

text \<open>
  Claim C8, amended.  \<open>UpdatePosition\<close> does not write the row-set collection before the
  merge: the steps 1 to 3 write the buffers of the partition builder and the bit vectors of
  the column-split helper, and leave the row-index buffer and the node ranges as they
  were.  So when one of these steps fails (the \<open>CHECK\<close> of the split conditions, the
  \<open>CHECK_EQ\<close> of \<open>base_rowid\<close>, a collective of the column split), the row-set collection
  is unchanged.  Otherwise the merge rewrites the row-index buffer, and of the row-set
  collection only the buffer, before \<open>AddSplitsToRowSet\<close> runs on the result.
\<close>

theorem UpdatePosition_unchanged_before_merge:
  "row_set_collection (snd (UpdatePosition_partition inp nodes p_tree p)) = row_set_collection p \<and>
   (\<forall>e. fst (UpdatePosition_partition inp nodes p_tree p) = Some e \<longrightarrow>
        fst (UpdatePosition inp nodes p_tree p) = Some e \<and>
        snd (UpdatePosition inp nodes p_tree p) = snd (UpdatePosition_partition inp nodes p_tree p) \<and>
        row_set_collection (snd (UpdatePosition inp nodes p_tree p)) = row_set_collection p) \<and>
   (fst (UpdatePosition_partition inp nodes p_tree p) = None \<longrightarrow>
        UpdatePosition inp nodes p_tree p =
          AddSplitsToRowSet nodes p_tree
            (UpdatePosition_merge nodes (snd (UpdatePosition_partition inp nodes p_tree p))) \<and>
        elem_of_each_node (row_set_collection
            (UpdatePosition_merge nodes (snd (UpdatePosition_partition inp nodes p_tree p)))) =
          elem_of_each_node (row_set_collection p))"
proof -
  obtain r p' where run: "UpdatePosition_partition inp nodes p_tree p = (r, p')"
    by (cases "UpdatePosition_partition inp nodes p_tree p")
  have frame: "row_set_collection p' = row_set_collection p"
    using UpdatePosition_partition_frame [of inp nodes p_tree p] run by simp
  show ?thesis
    unfolding run UpdatePosition_def
    by (cases r) (simp_all add: frame UpdatePosition_merge_keeps_ranges)
qed

theorem UpdatePosition_unchanged_before_merge_witness:
  "UpdatePosition (example_input\<lparr>gmat_base_rowid := 1\<rparr>) [\<lparr>nid = 0\<rparr>] example_tree
     example_partitioner =
     (Some CheckFailed, example_partitioner\<lparr>partition_builder := \<lparr>mem_blocks = [[([], [])]]\<rparr>\<rparr>) \<and>
   row_set_collection (snd (UpdatePosition (example_input\<lparr>gmat_base_rowid := 1\<rparr>) [\<lparr>nid = 0\<rparr>]
     example_tree example_partitioner)) = row_set_collection example_partitioner \<and>
   UpdatePosition
     (example_input\<lparr>collective := \<lparr>others_decision = [], others_missing = [],
                                     decision_ok = True, missing_ok = False\<rparr>\<rparr>)
     [\<lparr>nid = 0\<rparr>] example_tree (example_partitioner\<lparr>is_col_split := True\<rparr>) =
     (Some CollectiveFailure,
      example_partitioner
        \<lparr>is_col_split := True, partition_builder := \<lparr>mem_blocks = [[([], [])]]\<rparr>,
         column_split_helper :=
           \<lparr>decision_storage = [0], missing_storage = [0],
            tloc_decision = [0], tloc_missing = [0]\<rparr>\<rparr>)"
proof -
  have part: "UpdatePosition_partition (example_input\<lparr>gmat_base_rowid := 1\<rparr>) [\<lparr>nid = 0\<rparr>]
      example_tree example_partitioner =
      (Some CheckFailed, example_partitioner\<lparr>partition_builder := \<lparr>mem_blocks = [[([], [])]]\<rparr>\<rparr>)"
    by (simp add: UpdatePosition_partition_def example_input_def example_partitioner_def ex_fsc
      BlockedSpace2d_def Elem_rows_def n_tasks_of_def kPartitionBlockSize_def PartitionBuilder_Init_def
      upt_rec)
  have col: "UpdatePosition_partition
      (example_input\<lparr>collective := \<lparr>others_decision = [], others_missing = [],
                                      decision_ok = True, missing_ok = False\<rparr>\<rparr>)
      [\<lparr>nid = 0\<rparr>] example_tree (example_partitioner\<lparr>is_col_split := True\<rparr>) =
      (Some CollectiveFailure,
       example_partitioner
         \<lparr>is_col_split := True, partition_builder := \<lparr>mem_blocks = [[([], [])]]\<rparr>,
          column_split_helper :=
            \<lparr>decision_storage = [0], missing_storage = [0],
             tloc_decision = [0], tloc_missing = [0]\<rparr>\<rparr>)"
    by (simp add: UpdatePosition_partition_def example_input_def example_partitioner_def ex_fsc
      BlockedSpace2d_def Elem_rows_def n_tasks_of_def kPartitionBlockSize_def PartitionBuilder_Init_def
      ColumnSplitHelper_Partition_members_def make_tloc_def Allreduce_def upt_rec)
  from UpdatePosition_unchanged_before_merge
    [of "example_input\<lparr>gmat_base_rowid := 1\<rparr>" "[\<lparr>nid = 0\<rparr>]" example_tree example_partitioner]
    UpdatePosition_unchanged_before_merge
    [of "example_input\<lparr>collective := \<lparr>others_decision = [], others_missing = [],
                                      decision_ok = True, missing_ok = False\<rparr>\<rparr>"
        "[\<lparr>nid = 0\<rparr>]" example_tree "example_partitioner\<lparr>is_col_split := True\<rparr>"]
  show ?thesis
    unfolding part col by (simp add: prod_eq_iff)
qed


section \<open>Sums over blocks, lanes and bins\<close>

lemma hist_adds_skip: "hist_adds n Inr (\<lambda>k. 0)"
  by (simp add: hist_adds_def)

lemma hist_adds_accumulate:
  assumes "k0 < n"
  shows "hist_adds n (\<lambda>h. accumulate h k0 p) (\<lambda>k. if k = k0 then p else 0)"
  using assms by (simp add: hist_adds_def accumulate_def)

lemma hist_adds_if:
  assumes "c \<Longrightarrow> hist_adds n f g"
  shows "hist_adds n (\<lambda>h. if c then f h else Inr h) (\<lambda>k. if c then g k else 0)"
  using assms by (cases c) (simp_all add: hist_adds_skip)

lemma hist_adds_forM:
  assumes "\<And>x. x \<in> set xs \<Longrightarrow> hist_adds n (body x) (g x)"
  shows "hist_adds n (forM xs body) (\<lambda>k. sum_list (map (\<lambda>x. g x k) xs))"
  using assms
proof (induction xs)
  case Nil
  then show ?case by (simp add: hist_adds_def)
next
  case (Cons x xs)
  have hx: "hist_adds n (body x) (g x)" using Cons.prems by simp
  have hxs: "hist_adds n (forM xs body) (\<lambda>k. sum_list (map (\<lambda>x. g x k) xs))"
    using Cons by simp
  show ?case
    unfolding hist_adds_def
  proof (intro allI impI)
    fix h :: "'b list"
    assume "length h = n"
    with hx obtain h1 where h1: "body x h = Inr h1" "length h1 = n"
      "\<forall>k < n. h1 ! k = h ! k + g x k"
      unfolding hist_adds_def by blast
    with hxs obtain h2 where h2: "forM xs body h1 = Inr h2" "length h2 = n"
      "\<forall>k < n. h2 ! k = h1 ! k + sum_list (map (\<lambda>x. g x k) xs)"
      unfolding hist_adds_def by blast
    have "\<forall>k < n. h2 ! k = h ! k + sum_list (map (\<lambda>x. g x k) (x # xs))"
      using h1(3) h2(3) by (simp add: add.assoc)
    with h1 h2 show "\<exists>h'. forM (x # xs) body h = Inr h' \<and> length h' = n \<and>
        (\<forall>k < n. h' ! k = h ! k + sum_list (map (\<lambda>x. g x k) (x # xs)))"
      by simp
  qed
qed

lemma hist_adds_cong:
  assumes "hist_adds n c g" "\<And>k. k < n \<Longrightarrow> g k = g' k"
  shows "hist_adds n c g'"
  using assms unfolding hist_adds_def by simp

lemma sum_list_product:
  "sum_list (map f (List.product xs ys)) =
     sum_list (map (\<lambda>x. sum_list (map (\<lambda>y. f (x, y)) ys)) xs)"
  by (induction xs) (simp_all add: comp_def)

lemma sum_list_upt_conv: "sum_list (map f [0..<n]) = (\<Sum>i < n. f i)"
  by (simp add: interv_sum_list_conv_sum_set_nat atLeast0LessThan)

lemma slice_index_bound:
  assumes "B < nb" "x < (n :: nat)"
  shows "B * n + x < nb * n"
proof -
  have "B * n + x < B * n + n" using assms(2) by simp
  also have "\<dots> = Suc B * n" by simp
  also have "\<dots> \<le> nb * n" using assms(1) by (intro mult_le_mono1) simp
  finally show ?thesis .
qed

lemma slice_index_eq:
  assumes "x < (n :: nat)" "y < n"
  shows "B * n + x = C * n + y \<longleftrightarrow> B = C \<and> x = y"
proof
  assume eq: "B * n + x = C * n + y"
  have "(B * n + x) div n = B" "(C * n + y) div n = C"
    using assms by simp_all
  with eq have "B = C" by simp
  with eq show "B = C \<and> x = y" by simp
qed simp

lemma strided_set:
  assumes "0 < w"
  shows "set (strided j n w) = {k. j \<le> k \<and> k < n \<and> k mod w = j mod w}"
  using assms
proof (induction j n w rule: strided.induct)
  case (1 j n step)
  show ?case
  proof (cases "j < n")
    case False
    then show ?thesis by (auto simp: strided.simps [of j n step])
  next
    case True
    have IH: "set (strided (j + step) n step) =
        {k. j + step \<le> k \<and> k < n \<and> k mod step = (j + step) mod step}"
      using 1 True by simp
    have "k mod step = j mod step \<Longrightarrow> j \<le> k \<Longrightarrow> k \<noteq> j \<Longrightarrow> j + step \<le> k" for k
    proof -
      assume a: "k mod step = j mod step" "j \<le> k" "k \<noteq> j"
      then have "step dvd (k - j)"
        by (metis mod_eq_dvd_iff_nat)
      moreover have "0 < k - j" using a by simp
      ultimately have "step \<le> k - j" by (rule dvd_imp_le)
      then show ?thesis using a by simp
    qed
    then show ?thesis
      using True 1(2) by (auto simp: strided.simps [of j n step] IH)
  qed
qed

lemma strided_distinct: "distinct (strided j n w)"
proof (induction j n w rule: strided.induct)
  case (1 j n step)
  show ?case
  proof (cases "j < n \<and> 0 < step")
    case False
    then have "strided j n step = []" by (subst strided.simps) simp
    then show ?thesis by simp
  next
    case True
    then have "j \<notin> set (strided (j + step) n step)"
      by (simp add: strided_set)
    with 1 True show ?thesis
      by (simp add: strided.simps [of j n step])
  qed
qed

lemma sum_strided:
  fixes g :: "nat \<Rightarrow> 'a::comm_monoid_add"
  assumes "0 < w"
  shows "(\<Sum>feat < w. sum_list (map g (strided feat n w))) = (\<Sum>j < n. g j)"
proof -
  have "sum_list (map g (strided feat n w)) = sum g {x. x \<in> {..<n} \<and> x mod w = feat}"
    if "feat < w" for feat
  proof -
    have "set (strided feat n w) = {x. x \<in> {..<n} \<and> x mod w = feat}"
      using that assms by (auto simp: strided_set)
    then show ?thesis
      using sum_list_distinct_conv_sum_set [OF strided_distinct, of g feat n w] by simp
  qed
  then have "(\<Sum>feat < w. sum_list (map g (strided feat n w))) =
      (\<Sum>feat \<in> {..<w}. sum g {x. x \<in> {..<n} \<and> x mod w = feat})"
    by simp
  also have "\<dots> = sum g {..<n}"
    by (rule sum.group) (use assms in auto)
  finally show ?thesis .
qed

lemma sum_blocks:
  fixes g :: "nat \<Rightarrow> 'a::comm_monoid_add"
  assumes "n \<le> nb * bs"
  shows "(\<Sum>B < nb. \<Sum>idx < bs. if B * bs + idx < n then g (B * bs + idx) else 0) = (\<Sum>i < n. g i)"
proof -
  let ?f = "\<lambda>i. if i < n then g i else 0"
  have "(\<Sum>idx < bs. ?f (B * bs + idx)) = sum ?f {B * bs ..< B * bs + bs}" for B
    using sum.shift_bounds_nat_ivl [of ?f 0 "B * bs" bs]
    by (simp add: atLeast0LessThan add.commute cong: if_cong)
  then have "(\<Sum>B < nb. \<Sum>idx < bs. ?f (B * bs + idx)) = sum ?f {..<nb * bs}"
    by (simp add: sum.nat_group)
  also have "\<dots> = sum g {..<n}"
    by (rule sum.mono_neutral_cong_right) (use assms in auto)
  finally show ?thesis .
qed



lemma fill_result:
  assumes "n \<le> length h"
  shows "fill h v n = Inr (replicate n v @ drop n h)"
proof -
  have "forM [0..<n] (\<lambda>i h. store h i v) h = Inr (map (\<lambda>i. v) [0..<n] @ drop n h)"
    by (rule forM_store_upt [where L = "length h"]) (use assms in auto)
  then show ?thesis by (simp add: fill_def map_replicate_const)
qed

lemma ReduceHist_column:
  assumes "\<And>j. j < m \<Longrightarrow> j * n + b < length buf"
  shows "forM [0..<m]
           (\<lambda>j gpair.
              case load buf (j * n + b) of
                Inl e \<Rightarrow> Inl e
              | Inr v \<Rightarrow> Inr (gpair + v))
           (a :: 'a::comm_monoid_add) = Inr (a + (\<Sum>j < m. buf ! (j * n + b)))"
  using assms
proof (induction m)
  case 0
  then show ?case by simp
next
  case (Suc m)
  have "m * n + b < length buf" using Suc.prems [of m] by simp
  then have ld: "load buf (m * n + b) = Inr (buf ! (m * n + b))"
    by (simp add: load_def)
  have IH: "forM [0..<m]
           (\<lambda>j gpair.
              case load buf (j * n + b) of
                Inl e \<Rightarrow> Inl e
              | Inr v \<Rightarrow> Inr (gpair + v))
           a = Inr (a + (\<Sum>j < m. buf ! (j * n + b)))"
    using Suc by simp
  show ?case
    by (simp add: forM_append IH ld add.assoc)
qed

lemma ReduceHist_result:
  assumes "nb * n \<le> length buf" "n \<le> length hist"
  shows "ReduceHist hist buf nb n =
         Inr (map (\<lambda>b. \<Sum>j < nb. buf ! (j * n + b)) [0..<n] @ drop n hist)"
proof -
  have col: "forM [0..<nb]
           (\<lambda>j gpair.
              case load buf (j * n + b) of
                Inl e \<Rightarrow> Inl e
              | Inr v \<Rightarrow> Inr (gpair + v))
           0 = Inr (\<Sum>j < nb. buf ! (j * n + b))" if "b < n" for b
  proof -
    have "j * n + b < length buf" if "j < nb" for j
      using slice_index_bound [OF that \<open>b < n\<close>] assms(1) by simp
    from ReduceHist_column [OF this, of nb 0] show ?thesis by simp
  qed
  show ?thesis
    unfolding ReduceHist_def
    by (rule forM_store_upt [where L = "length hist"]) (use assms(2) col in auto)
qed

lemma buffer_item_adds:
  assumes "B < block_nblocks d" "block_nblocks d * nbins gmat \<le> L"
  shows "hist_adds L (BuildHistKernel_buffer_item isDense bt pgh rid gmat d B feat)
     (\<lambda>k. \<Sum>idx < block_size d.
        if B * block_size d + idx < length rid
        then sum_list (map
               (\<lambda>j. if unat (bin_index isDense bt gmat
                          (n_columns isDense gmat * rid ! (B * block_size d + idx)) j) < nbins gmat
                    then (if k = B * nbins gmat
                               + unat (bin_index isDense bt gmat
                                   (n_columns isDense gmat * rid ! (B * block_size d + idx)) j)
                          then pgh (rid ! (B * block_size d + idx)) else 0)
                    else 0)
               (strided feat (n_columns isDense gmat) (work_group_size d)))
        else 0)"
proof -
  let ?bin = "\<lambda>i j. unat (bin_index isDense bt gmat (n_columns isDense gmat * rid ! i) j)"
  let ?cell = "\<lambda>i j k. if ?bin i j < nbins gmat
                    then (if k = B * nbins gmat + ?bin i j then pgh (rid ! i) else 0)
                    else 0"
  have cell: "hist_adds L
      (\<lambda>buf. if ?bin i j < nbins gmat
            then accumulate buf (B * nbins gmat + ?bin i j) (pgh (rid ! i)) else Inr buf)
      (?cell i j)" for i j
  proof (rule hist_adds_if)
    assume "?bin i j < nbins gmat"
    from slice_index_bound [OF assms(1) this] assms(2)
    have "B * nbins gmat + ?bin i j < L" by simp
    then show "hist_adds L (\<lambda>h. accumulate h (B * nbins gmat + ?bin i j) (pgh (rid ! i)))
        (\<lambda>k. if k = B * nbins gmat + ?bin i j then pgh (rid ! i) else 0)"
      by (rule hist_adds_accumulate)
  qed
  have row: "hist_adds L
      (forM (strided feat (n_columns isDense gmat) (work_group_size d))
         (\<lambda>j buf. if ?bin i j < nbins gmat
            then accumulate buf (B * nbins gmat + ?bin i j) (pgh (rid ! i)) else Inr buf))
      (\<lambda>k. sum_list (map (\<lambda>j. ?cell i j k)
               (strided feat (n_columns isDense gmat) (work_group_size d))))" for i
    by (rule hist_adds_forM) (rule cell)
  have "hist_adds L
      (forM [0..<block_size d]
         (\<lambda>idx buf. if B * block_size d + idx < length rid
            then forM (strided feat (n_columns isDense gmat) (work_group_size d))
              (\<lambda>j buf. if ?bin (B * block_size d + idx) j < nbins gmat
                 then accumulate buf (B * nbins gmat + ?bin (B * block_size d + idx) j)
                        (pgh (rid ! (B * block_size d + idx)))
                 else Inr buf) buf
            else Inr buf))
      (\<lambda>k. sum_list (map
          (\<lambda>idx. if B * block_size d + idx < length rid
             then sum_list (map (\<lambda>j. ?cell (B * block_size d + idx) j k)
               (strided feat (n_columns isDense gmat) (work_group_size d)))
             else 0) [0..<block_size d]))"
    by (rule hist_adds_forM) (rule hist_adds_if, rule row)
  then show ?thesis
    unfolding BuildHistKernel_buffer_item_def Let_def sum_list_upt_conv .
qed


lemma work_items_set: "set (work_items n0 n1) = {..<n0} \<times> {..<n1}"
  by (auto simp: work_items_def)

lemma sum_list_work_items:
  "sum_list (map f (work_items n0 n1)) = (\<Sum>a < n0. \<Sum>b < n1. f (a, b))"
  by (simp add: work_items_def sum_list_product sum_list_upt_conv)

lemma buffer_main_adds:
  assumes "block_nblocks d * nbins gmat \<le> L"
  shows "hist_adds L
     (forM (work_items (block_nblocks d) (work_group_size d))
        (\<lambda>(block, feat). BuildHistKernel_buffer_item isDense bt pgh rid gmat d block feat))
     (\<lambda>k. \<Sum>B < block_nblocks d. \<Sum>feat < work_group_size d. \<Sum>idx < block_size d.
        if B * block_size d + idx < length rid
        then sum_list (map
               (\<lambda>j. if unat (bin_index isDense bt gmat
                          (n_columns isDense gmat * rid ! (B * block_size d + idx)) j) < nbins gmat
                    then (if k = B * nbins gmat
                               + unat (bin_index isDense bt gmat
                                   (n_columns isDense gmat * rid ! (B * block_size d + idx)) j)
                          then pgh (rid ! (B * block_size d + idx)) else 0)
                    else 0)
               (strided feat (n_columns isDense gmat) (work_group_size d)))
        else 0)"
proof -
  let ?g = "\<lambda>(B, feat) k. \<Sum>idx < block_size d.
        if B * block_size d + idx < length rid
        then sum_list (map
               (\<lambda>j. if unat (bin_index isDense bt gmat
                          (n_columns isDense gmat * rid ! (B * block_size d + idx)) j) < nbins gmat
                    then (if k = B * nbins gmat
                               + unat (bin_index isDense bt gmat
                                   (n_columns isDense gmat * rid ! (B * block_size d + idx)) j)
                          then pgh (rid ! (B * block_size d + idx)) else 0)
                    else 0)
               (strided feat (n_columns isDense gmat) (work_group_size d)))
        else 0"
  have "hist_adds L
     (forM (work_items (block_nblocks d) (work_group_size d))
        (\<lambda>(block, feat). BuildHistKernel_buffer_item isDense bt pgh rid gmat d block feat))
     (\<lambda>k. sum_list (map (\<lambda>x. ?g x k) (work_items (block_nblocks d) (work_group_size d))))"
  proof (rule hist_adds_forM)
    fix x assume "x \<in> set (work_items (block_nblocks d) (work_group_size d))"
    then obtain B feat where x: "x = (B, feat)" "B < block_nblocks d"
      by (auto simp: work_items_set)
    show "hist_adds L
        (case x of (block, feat) \<Rightarrow>
           BuildHistKernel_buffer_item isDense bt pgh rid gmat d block feat) (?g x)"
      unfolding x prod.case by (rule buffer_item_adds [OF x(2) assms])
  qed
  then show ?thesis
    unfolding sum_list_work_items prod.case .
qed

lemma buffer_main_value:
  fixes pgh :: "nat \<Rightarrow> 'a::comm_monoid_add GradientPairInternal"
  assumes "0 < work_group_size d" "B < block_nblocks d" "b < nbins gmat"
  shows "(\<Sum>B' < block_nblocks d. \<Sum>feat < work_group_size d. \<Sum>idx < block_size d.
        if B' * block_size d + idx < length rid
        then sum_list (map
               (\<lambda>j. if unat (bin_index isDense bt gmat
                          (n_columns isDense gmat * rid ! (B' * block_size d + idx)) j) < nbins gmat
                    then (if B * nbins gmat + b = B' * nbins gmat
                               + unat (bin_index isDense bt gmat
                                   (n_columns isDense gmat * rid ! (B' * block_size d + idx)) j)
                          then pgh (rid ! (B' * block_size d + idx)) else 0)
                    else 0)
               (strided feat (n_columns isDense gmat) (work_group_size d)))
        else 0) = block_spec isDense bt pgh rid gmat (block_size d) B b"
proof -
  let ?bin = "\<lambda>i j. unat (bin_index isDense bt gmat (n_columns isDense gmat * rid ! i) j)"
  let ?c = "\<lambda>i j. if ?bin i j = b then pgh (rid ! i) else 0"
  have cell: "(if ?bin i j < nbins gmat
                    then (if B * nbins gmat + b = B' * nbins gmat + ?bin i j
                          then pgh (rid ! i) else 0)
                    else 0) = (if B' = B then ?c i j else 0)" for i j B'
    using slice_index_eq [OF assms(3), of "?bin i j" B B'] assms(3) by auto
  have "(\<Sum>B' < block_nblocks d. \<Sum>feat < work_group_size d. \<Sum>idx < block_size d.
        if B' * block_size d + idx < length rid
        then sum_list (map
               (\<lambda>j. if ?bin (B' * block_size d + idx) j < nbins gmat
                    then (if B * nbins gmat + b = B' * nbins gmat + ?bin (B' * block_size d + idx) j
                          then pgh (rid ! (B' * block_size d + idx)) else 0)
                    else 0)
               (strided feat (n_columns isDense gmat) (work_group_size d)))
        else 0) =
     (\<Sum>B' < block_nblocks d. if B' = B then
        (\<Sum>feat < work_group_size d. \<Sum>idx < block_size d.
        if B * block_size d + idx < length rid
        then sum_list (map (?c (B * block_size d + idx))
               (strided feat (n_columns isDense gmat) (work_group_size d)))
        else 0) else 0)"
    unfolding cell by (intro sum.cong refl) (simp cong: if_cong)
  also have "\<dots> = (\<Sum>feat < work_group_size d. \<Sum>idx < block_size d.
        if B * block_size d + idx < length rid
        then sum_list (map (?c (B * block_size d + idx))
               (strided feat (n_columns isDense gmat) (work_group_size d)))
        else 0)"
    using assms(2) by simp
  also have "\<dots> = (\<Sum>idx < block_size d. \<Sum>feat < work_group_size d.
        if B * block_size d + idx < length rid
        then sum_list (map (?c (B * block_size d + idx))
               (strided feat (n_columns isDense gmat) (work_group_size d)))
        else 0)"
    by (rule sum.swap)
  also have "\<dots> = (\<Sum>idx < block_size d.
        if B * block_size d + idx < length rid
        then (\<Sum>feat < work_group_size d. sum_list (map (?c (B * block_size d + idx))
               (strided feat (n_columns isDense gmat) (work_group_size d))))
        else 0)"
    by (intro sum.cong refl) simp
  also have "\<dots> = block_spec isDense bt pgh rid gmat (block_size d) B b"
    unfolding block_spec_def sum_strided [OF assms(1)] ..
  finally show ?thesis .
qed


lemma BuildHistKernel_buffer_run:
  fixes pgh :: "nat \<Rightarrow> 'a::comm_monoid_add GradientPairInternal"
  assumes "block_nblocks d * nbins gmat \<le> length buf" "nbins gmat \<le> length hist"
  shows "\<exists>buf1. BuildHistKernel_buffer isDense bt pgh rid gmat hist buf d =
           Inr (map (\<lambda>b. \<Sum>B < block_nblocks d. buf1 ! (B * nbins gmat + b)) [0..<nbins gmat]
                  @ drop (nbins gmat) hist, buf1) \<and>
         length buf1 = length buf \<and>
         (0 < work_group_size d \<longrightarrow>
            (\<forall>B < block_nblocks d. \<forall>b < nbins gmat.
               buf1 ! (B * nbins gmat + b) = block_spec isDense bt pgh rid gmat (block_size d) B b))"
proof -
  let ?n = "block_nblocks d * nbins gmat"
  let ?buf0 = "replicate ?n 0 @ drop ?n buf"
  have f: "fill buf 0 ?n = Inr ?buf0"
    by (rule fill_result [OF assms(1)])
  have len0: "length ?buf0 = length buf" using assms(1) by simp
  from buffer_main_adds [OF assms(1), where isDense = isDense and bt = bt and rid = rid
      and pgh = pgh] len0
  obtain buf1 where run: "forM (work_items (block_nblocks d) (work_group_size d))
        (\<lambda>(block, feat). BuildHistKernel_buffer_item isDense bt pgh rid gmat d block feat)
        ?buf0 = Inr buf1"
    and len1: "length buf1 = length buf"
    and val: "\<forall>k < length buf. buf1 ! k = ?buf0 ! k +
      (\<Sum>B < block_nblocks d. \<Sum>feat < work_group_size d. \<Sum>idx < block_size d.
        if B * block_size d + idx < length rid
        then sum_list (map
               (\<lambda>j. if unat (bin_index isDense bt gmat
                          (n_columns isDense gmat * rid ! (B * block_size d + idx)) j) < nbins gmat
                    then (if k = B * nbins gmat
                               + unat (bin_index isDense bt gmat
                                   (n_columns isDense gmat * rid ! (B * block_size d + idx)) j)
                          then pgh (rid ! (B * block_size d + idx)) else 0)
                    else 0)
               (strided feat (n_columns isDense gmat) (work_group_size d)))
        else 0)"
    unfolding hist_adds_def by blast
  have red: "ReduceHist hist buf1 (block_nblocks d) (nbins gmat) =
      Inr (map (\<lambda>b. \<Sum>B < block_nblocks d. buf1 ! (B * nbins gmat + b)) [0..<nbins gmat]
             @ drop (nbins gmat) hist)"
    by (rule ReduceHist_result) (use assms len1 in auto)
  have res: "BuildHistKernel_buffer isDense bt pgh rid gmat hist buf d =
           Inr (map (\<lambda>b. \<Sum>B < block_nblocks d. buf1 ! (B * nbins gmat + b)) [0..<nbins gmat]
                  @ drop (nbins gmat) hist, buf1)"
    unfolding BuildHistKernel_buffer_def f sum.case run red ..
  have "buf1 ! (B * nbins gmat + b) = block_spec isDense bt pgh rid gmat (block_size d) B b"
    if "0 < work_group_size d" "B < block_nblocks d" "b < nbins gmat" for B b
  proof -
    have k: "B * nbins gmat + b < ?n" by (rule slice_index_bound [OF that(2,3)])
    then have "?buf0 ! (B * nbins gmat + b) = 0" by (simp add: nth_append)
    moreover have "B * nbins gmat + b < length buf" using k assms(1) by simp
    ultimately show ?thesis
      using val
        buffer_main_value [OF that, where isDense = isDense and bt = bt and rid = rid and pgh = pgh]
      by simp
  qed
  with res len1 show ?thesis by blast
qed

lemma flat_add_pair:
  assumes "k < length h"
  shows "(case flat_add h (2 * k) x of
            Inl e \<Rightarrow> Inl e
          | Inr h1 \<Rightarrow> flat_add h1 (2 * k + 1) y) =
         accumulate h k (GradientPairInternal x y)"
  using assms
  by (simp add: flat_add_def flat_read_def flat_write_def accumulate_def
      plus_GradientPairInternal_def)

lemma pgh_flat_pair:
  "GradientPairInternal (pgh_flat pgh (2 * r)) (pgh_flat pgh (2 * r + 1)) = pgh r"
  by (simp add: pgh_flat_def)

lemma flat_fill_loop:
  assumes "m \<le> 2 * length h"
  shows "\<exists>h'. forM [0..<m] (\<lambda>i h. flat_write h i v) h = Inr h' \<and> length h' = length h \<and>
         (\<forall>k < length h.
            h' ! k =
              (if 2 * k + 1 < m then GradientPairInternal v v
               else if 2 * k < m then GradientPairInternal v (GetHess (h ! k))
               else h ! k))"
  using assms
proof (induction m)
  case 0
  then show ?case by simp
next
  case (Suc m)
  then obtain h' where h': "forM [0..<m] (\<lambda>i h. flat_write h i v) h = Inr h'"
    "length h' = length h"
    and hk: "\<forall>k < length h.
            h' ! k =
              (if 2 * k + 1 < m then GradientPairInternal v v
               else if 2 * k < m then GradientPairInternal v (GetHess (h ! k))
               else h ! k)"
    by force
  from Suc.prems have lt: "m div 2 < length h" by auto
  show ?case
  proof (cases "even m")
    case True
    then have n: "m = 2 * (m div 2)" by auto
    have "2 * k < Suc m \<longleftrightarrow> 2 * k < m \<or> k = m div 2" for k
      using True by presburger
    moreover have "2 * k + 1 < Suc m \<longleftrightarrow> 2 * k + 1 < m" for k
      using True by presburger
    moreover have "\<not> 2 * (m div 2) < m" using n by linarith
    ultimately show ?thesis
      using h' lt True hk
      by (auto simp: forM_append flat_write_def nth_list_update)
  next
    case False
    then have n: "m = 2 * (m div 2) + 1" by presburger
    have "2 * k < Suc m \<longleftrightarrow> 2 * k < m" for k
      using False by presburger
    moreover have "2 * k + 1 < Suc m \<longleftrightarrow> 2 * k + 1 < m \<or> k = m div 2" for k
      using False by presburger
    moreover have "\<not> 2 * (m div 2) + 1 < m" "2 * (m div 2) < m" using n by linarith+
    ultimately show ?thesis
      using h' lt False hk
      by (auto simp: forM_append flat_write_def nth_list_update)
  qed
qed

lemma flat_fill_result:
  assumes "n \<le> length h"
  shows "flat_fill h (0 :: 'a::zero) (n * 2) = Inr (replicate n 0 @ drop n h)"
proof -
  from flat_fill_loop [of "n * 2" h 0] assms
  obtain h' where h': "flat_fill h 0 (n * 2) = Inr h'" "length h' = length h"
    and hk: "\<forall>k < length h.
            h' ! k =
              (if 2 * k + 1 < n * 2 then GradientPairInternal 0 0
               else if 2 * k < n * 2 then GradientPairInternal 0 (GetHess (h ! k))
               else h ! k)"
    unfolding flat_fill_def by force
  have "h' = replicate n 0 @ drop n h"
  proof (rule nth_equalityI)
    show "length h' = length (replicate n 0 @ drop n h)"
      using h'(2) assms by simp
    fix k assume "k < length h'"
    then have k: "k < length h" using h'(2) by simp
    show "h' ! k = (replicate n 0 @ drop n h) ! k"
    proof (cases "k < n")
      case True
      then have "2 * k + 1 < n * 2" by simp
      with hk k True show ?thesis
        by (simp add: nth_append zero_GradientPairInternal_def)
    next
      case False
      then have "\<not> 2 * k + 1 < n * 2" "\<not> 2 * k < n * 2" by simp_all
      with hk k False assms show ?thesis
        by (simp add: nth_append)
    qed
  qed
  with h'(1) show ?thesis by simp
qed

lemma n_work_groups_cover:
  assumes "0 < (w :: nat)"
  shows "n \<le> (n div w + (if n mod w > 0 then 1 else 0)) * w"
proof -
  have "n = n div w * w + n mod w" by simp
  moreover have "n mod w \<le> (if n mod w > 0 then 1 else 0) * w"
    using assms by (simp add: less_imp_le)
  ultimately show ?thesis
    by (metis add_mono_thms_linordered_semiring(1) distrib_right order_refl)
qed

lemma sum_groups:
  fixes g :: "nat \<Rightarrow> 'a::comm_monoid_add"
  assumes "n \<le> nwg * w"
  shows "(\<Sum>a < nwg. \<Sum>l < w. if a * w + l < n then g (a * w + l) else 0) = (\<Sum>j < n. g j)"
  by (rule sum_blocks [OF assms])


lemma hist_adds_eq:
  assumes "hist_adds n c' g" "\<And>h. length h = n \<Longrightarrow> c h = c' h"
  shows "hist_adds n c g"
  using assms unfolding hist_adds_def by simp

lemma unat_twice:
  fixes w :: "32 word"
  assumes "unat w < 2 ^ 31"
  shows "unat (2 * w) = 2 * unat w" "unat (2 * w + 1) = 2 * unat w + 1"
  using assms by (simp_all add: unat_word_ariths)

lemma unat_twice_le:
  fixes w :: "32 word"
  shows "unat (2 * w) \<le> 2 * unat w"
  by (simp add: unat_word_ariths)

lemma unat_twice_Suc:
  fixes w :: "32 word"
  shows "unat (2 * w + 1) = unat (2 * w) + 1"
proof -
  have "odd (unat x) \<longleftrightarrow> odd x" for x :: "32 word"
    by (simp flip: bit_0 add: bit_unsigned_iff)
  then have ev: "even (unat (2 * w))" by simp
  have lt: "unat (2 * w) < 2 ^ 32" using unsigned_less [of "2 * w"] by simp
  have "unat (2 * w) + 1 \<noteq> 2 ^ 32"
  proof
    assume "unat (2 * w) + 1 = 2 ^ 32"
    then have "even (unat (2 * w) + 1)" by simp
    with ev show False by simp
  qed
  with lt have "unat (2 * w) + 1 < 2 ^ 32" by linarith
  then have "unat (2 * w) + unat (1 :: 32 word) < 2 ^ LENGTH(32)" by simp
  then show ?thesis
    using unat_add_lem [THEN iffD1, of "2 * w" 1] by simp
qed

lemma row_position_int:
  assumes "i < length rid" "length rid \<le> 2 ^ 31"
  shows "sint (word_of_nat i :: 32 word) = int i"
  by (rule sint_word_of_nat_32) (use assms in simp)

lemma atomic_item_adds:
  fixes pgh :: "nat \<Rightarrow> 'a::comm_monoid_add GradientPairInternal"
  assumes "nbins gmat \<le> L" "nbins gmat \<le> 2 ^ 31" "i < length rid" "length rid \<le> 2 ^ 31"
  shows "hist_adds L (BuildHistKernel_atomic_item isDense bt pgh rid gmat w i a l)
     (\<lambda>k. if a * w + l < n_columns isDense gmat
          then (if unat (bin_index isDense bt gmat (n_columns isDense gmat * rid ! i) (a * w + l))
                     < nbins gmat
                then (if k = unat (bin_index isDense bt gmat (n_columns isDense gmat * rid ! i)
                                    (a * w + l))
                      then pgh (rid ! i) else 0)
                else 0)
          else 0)"
proof -
  let ?bin = "unat (bin_index isDense bt gmat (n_columns isDense gmat * rid ! i) (a * w + l))"
  have pos: "sint (word_of_nat i :: 32 word) = int i"
    by (rule row_position_int [OF assms(3,4)])
  have "hist_adds L
      (\<lambda>h. if a * w + l < n_columns isDense gmat
           then (if ?bin < nbins gmat then accumulate h ?bin (pgh (rid ! i)) else Inr h)
           else Inr h)
      (\<lambda>k. if a * w + l < n_columns isDense gmat
          then (if ?bin < nbins gmat then (if k = ?bin then pgh (rid ! i) else 0) else 0)
          else 0)"
    by (intro hist_adds_if hist_adds_accumulate) (use assms in simp)
  then show ?thesis
  proof (rule hist_adds_eq)
    fix h :: "'a GradientPairInternal list"
    assume len: "length h = L"
    show "BuildHistKernel_atomic_item isDense bt pgh rid gmat w i a l h =
        (if a * w + l < n_columns isDense gmat
         then (if ?bin < nbins gmat then accumulate h ?bin (pgh (rid ! i)) else Inr h)
         else Inr h)"
    proof (cases "a * w + l < n_columns isDense gmat \<and> ?bin < nbins gmat")
      case True
      then have inb: "?bin < length h" and small: "?bin < 2 ^ 31" using assms len by simp_all
      have "BuildHistKernel_atomic_item isDense bt pgh rid gmat w i a l h =
          (case flat_add h
                  (unat (2 * bin_index isDense bt gmat (n_columns isDense gmat * rid ! i)
                               (a * w + l)))
                  (GetGrad (pgh (rid ! i))) of
             Inl e \<Rightarrow> Inl e
           | Inr h1 \<Rightarrow>
               flat_add h1
                 (unat (2 * bin_index isDense bt gmat (n_columns isDense gmat * rid ! i)
                              (a * w + l) + 1))
                 (GetHess (pgh (rid ! i))))"
        using True assms(3)
        by (simp add: BuildHistKernel_atomic_item_def Let_def pos pgh_flat_def)
      also have "\<dots> = accumulate h ?bin (GradientPairInternal (GetGrad (pgh (rid ! i)))
                                        (GetHess (pgh (rid ! i))))"
        unfolding unat_twice [OF small] by (rule flat_add_pair [OF inb])
      finally show ?thesis using True by simp
    next
      case False
      then show ?thesis
        unfolding BuildHistKernel_atomic_item_def Let_def pos using assms(3) by auto
    qed
  qed
qed

lemma atomic_value:
  fixes pgh :: "nat \<Rightarrow> 'a::comm_monoid_add GradientPairInternal"
  assumes "n_columns isDense gmat \<le> nwg * w"
  shows "(\<Sum>i < length rid. \<Sum>a < nwg. \<Sum>l < w.
          if a * w + l < n_columns isDense gmat
          then (if unat (bin_index isDense bt gmat (n_columns isDense gmat * rid ! i) (a * w + l))
                     < nbins gmat
                then (if k = unat (bin_index isDense bt gmat (n_columns isDense gmat * rid ! i)
                                    (a * w + l))
                      then pgh (rid ! i) else 0)
                else 0)
          else 0) =
     (if k < nbins gmat then histogram_spec isDense bt pgh rid gmat k else 0)"
proof -
  let ?bin = "\<lambda>i j. unat (bin_index isDense bt gmat (n_columns isDense gmat * rid ! i) j)"
  let ?g = "\<lambda>i j. if ?bin i j < nbins gmat then (if k = ?bin i j then pgh (rid ! i) else 0) else 0"
  have "(\<Sum>a < nwg. \<Sum>l < w. if a * w + l < n_columns isDense gmat then ?g i (a * w + l) else 0)
      = (\<Sum>j < n_columns isDense gmat. ?g i j)" for i
    by (rule sum_groups [OF assms])
  then have eq: "(\<Sum>i < length rid. \<Sum>a < nwg. \<Sum>l < w.
          if a * w + l < n_columns isDense gmat then ?g i (a * w + l) else 0) =
      (\<Sum>i < length rid. \<Sum>j < n_columns isDense gmat. ?g i j)"
    by simp
  have "?g i j = (if k < nbins gmat then (if ?bin i j = k then pgh (rid ! i) else 0) else 0)"
    for i j by auto
  then have "(\<Sum>i < length rid. \<Sum>j < n_columns isDense gmat. ?g i j) =
      (if k < nbins gmat then histogram_spec isDense bt pgh rid gmat k else 0)"
    unfolding histogram_spec_def by simp
  with eq show ?thesis by simp
qed

lemma BuildHistKernel_atomic_result:
  fixes pgh :: "nat \<Rightarrow> 'a::comm_monoid_add GradientPairInternal"
  assumes "0 < work_group_size d" "nbins gmat \<le> length hist"
    and "nbins gmat \<le> 2 ^ 31" "length rid \<le> 2 ^ 31"
  shows "BuildHistKernel_atomic isDense bt pgh rid gmat hist d =
         Inr (map (histogram_spec isDense bt pgh rid gmat) [0..<nbins gmat]
                @ drop (nbins gmat) hist)"
proof -
  let ?w = "work_group_size d"
  let ?nwg = "n_columns isDense gmat div ?w + (if n_columns isDense gmat mod ?w > 0 then 1 else 0)"
  let ?h0 = "replicate (nbins gmat) 0 @ drop (nbins gmat) hist"
  let ?g = "\<lambda>(i, a, l) k. if a * ?w + l < n_columns isDense gmat
          then (if unat (bin_index isDense bt gmat (n_columns isDense gmat * rid ! i) (a * ?w + l))
                     < nbins gmat
                then (if k = unat (bin_index isDense bt gmat (n_columns isDense gmat * rid ! i)
                                    (a * ?w + l))
                      then pgh (rid ! i) else 0)
                else 0)
          else 0"
  have f: "flat_fill hist 0 (nbins gmat * 2) = Inr ?h0"
    by (rule flat_fill_result [OF assms(2)])
  have len0: "length ?h0 = length hist" using assms(2) by simp
  have "hist_adds (length hist)
      (forM (List.product [0..<length rid] (work_items ?nwg ?w))
         (\<lambda>(i, group_id, local_id).
            BuildHistKernel_atomic_item isDense bt pgh rid gmat ?w i group_id local_id))
      (\<lambda>k. sum_list (map (\<lambda>x. ?g x k) (List.product [0..<length rid] (work_items ?nwg ?w))))"
  proof (rule hist_adds_forM)
    fix x :: "nat \<times> nat \<times> nat"
    obtain i a l where x: "x = (i, a, l)" by (cases x) auto
    assume "x \<in> set (List.product [0..<length rid] (work_items ?nwg ?w))"
    then have "i < length rid" unfolding x by simp
    then show "hist_adds (length hist)
        (case x of (i, group_id, local_id) \<Rightarrow>
           BuildHistKernel_atomic_item isDense bt pgh rid gmat ?w i group_id local_id) (?g x)"
      unfolding x prod.case by (intro atomic_item_adds assms)
  qed
  then have "hist_adds (length hist)
      (forM (List.product [0..<length rid] (work_items ?nwg ?w))
         (\<lambda>(i, group_id, local_id).
            BuildHistKernel_atomic_item isDense bt pgh rid gmat ?w i group_id local_id))
      (\<lambda>k. if k < nbins gmat then histogram_spec isDense bt pgh rid gmat k else 0)"
    unfolding sum_list_product sum_list_upt_conv sum_list_work_items prod.case
      atomic_value [OF n_work_groups_cover [OF assms(1)]] .
  with len0 obtain h' where run: "forM (List.product [0..<length rid] (work_items ?nwg ?w))
         (\<lambda>(i, group_id, local_id).
            BuildHistKernel_atomic_item isDense bt pgh rid gmat ?w i group_id local_id) ?h0 = Inr h'"
    and len': "length h' = length hist"
    and val: "\<forall>k < length hist. h' ! k = ?h0 ! k +
       (if k < nbins gmat then histogram_spec isDense bt pgh rid gmat k else 0)"
    unfolding hist_adds_def by blast
  have "h' = map (histogram_spec isDense bt pgh rid gmat) [0..<nbins gmat] @ drop (nbins gmat) hist"
  proof (rule nth_equalityI)
    show "length h' =
        length (map (histogram_spec isDense bt pgh rid gmat) [0..<nbins gmat]
                 @ drop (nbins gmat) hist)"
      using len' assms(2) by simp
    fix k assume "k < length h'"
    then have "k < length hist" using len' by simp
    with val show "h' ! k =
        (map (histogram_spec isDense bt pgh rid gmat) [0..<nbins gmat]
           @ drop (nbins gmat) hist) ! k"
      by (simp add: nth_append)
  qed
  with run f assms(1) show ?thesis
    unfolding BuildHistKernel_atomic_def Let_def by simp
qed

lemma forM_never:
  assumes "\<And>x s. x \<in> set xs \<Longrightarrow> P s \<Longrightarrow>
              body x s \<noteq> Inl e \<and> (\<forall>s'. body x s = Inr s' \<longrightarrow> P s')"
    and "P s"
  shows "forM xs body s \<noteq> Inl e"
  using assms
proof (induction xs arbitrary: s)
  case Nil
  then show ?case by simp
next
  case (Cons x xs)
  have step: "body x s \<noteq> Inl e" "\<forall>s'. body x s = Inr s' \<longrightarrow> P s'"
    using Cons.prems(1) [of x s] Cons.prems(2) by simp_all
  show ?case
  proof (cases "body x s")
    case (Inl e')
    with step show ?thesis by simp
  next
    case (Inr s1)
    with step have "P s1" by simp
    then have "forM xs body s1 \<noteq> Inl e"
      by (intro Cons.IH) (use Cons.prems(1) in auto)
    with Inr show ?thesis by simp
  qed
qed

lemma flat_add_in_bounds:
  assumes "k < 2 * length h"
  shows "\<exists>h'. flat_add h k v = Inr h' \<and> length h' = length h"
  using assms by (auto simp add: flat_add_def flat_read_def flat_write_def)

lemma atomic_item_in_bounds:
  assumes "nbins gmat \<le> length h"
  shows "BuildHistKernel_atomic_item isDense bt pgh rid gmat w i a l h \<noteq> Inl OutOfBounds \<and>
         (\<forall>h'. BuildHistKernel_atomic_item isDense bt pgh rid gmat w i a l h = Inr h' \<longrightarrow>
               length h' = length h)"
proof -
  have two: "\<exists>h2. (case flat_add h (unat (2 * b)) x of
                     Inl e \<Rightarrow> Inl e
                   | Inr h1 \<Rightarrow> flat_add h1 (unat (2 * b + 1)) y) = Inr h2 \<and>
                  length h2 = length h"
    if "unat b < nbins gmat" for b :: "32 word" and x y
  proof -
    have k0: "unat (2 * b) < 2 * length h" and k1: "unat (2 * b + 1) < 2 * length h"
      using unat_twice_le [of b] that assms unfolding unat_twice_Suc by linarith+
    from flat_add_in_bounds [OF k0] obtain h1 where
      h1: "flat_add h (unat (2 * b)) x = Inr h1" "length h1 = length h"
      by blast
    from flat_add_in_bounds [of "unat (2 * b + 1)" h1 y] k1 h1(2) obtain h2 where
      "flat_add h1 (unat (2 * b + 1)) y = Inr h2" "length h2 = length h"
      by auto
    with h1 show ?thesis by simp
  qed
  show ?thesis
  proof (cases "sint (word_of_nat i :: 32 word) < 0 \<or>
                length rid \<le> nat (sint (word_of_nat i :: 32 word))")
    case True
    then show ?thesis by (auto simp add: BuildHistKernel_atomic_item_def)
  next
    case False
    let ?i = "nat (sint (word_of_nat i :: 32 word))"
    let ?b = "bin_index isDense bt gmat (n_columns isDense gmat * rid ! ?i) (a * w + l)"
    show ?thesis
    proof (cases "a * w + l < n_columns isDense gmat \<and> unat ?b < nbins gmat")
      case True
      from two [where b = ?b and x = "pgh_flat pgh (2 * rid ! ?i)"
          and y = "pgh_flat pgh (Suc (2 * rid ! ?i))"] True
      obtain h2 where "(case flat_add h (unat (2 * ?b)) (pgh_flat pgh (2 * rid ! ?i)) of
                     Inl e \<Rightarrow> Inl e
                   | Inr h1 \<Rightarrow> flat_add h1 (unat (2 * ?b + 1)) (pgh_flat pgh (Suc (2 * rid ! ?i))))
                   = Inr h2" "length h2 = length h"
        by blast
      with True False show ?thesis
        by (simp add: BuildHistKernel_atomic_item_def Let_def)
    next
      case False
      with \<open>\<not> (sint (word_of_nat i :: 32 word) < 0 \<or>
                length rid \<le> nat (sint (word_of_nat i :: 32 word)))\<close>
      show ?thesis
        by (auto simp add: BuildHistKernel_atomic_item_def Let_def)
    qed
  qed
qed

lemma BuildHistKernel_atomic_in_bounds:
  assumes "nbins gmat \<le> length hist"
  shows "BuildHistKernel_atomic isDense bt pgh rid gmat hist d \<noteq> Inl OutOfBounds"
proof (cases "work_group_size d = 0")
  case True
  then show ?thesis by (simp add: BuildHistKernel_atomic_def)
next
  case False
  let ?w = "work_group_size d"
  let ?nwg = "n_columns isDense gmat div ?w + (if n_columns isDense gmat mod ?w > 0 then 1 else 0)"
  let ?h0 = "replicate (nbins gmat) 0 @ drop (nbins gmat) hist"
  have f: "flat_fill hist 0 (nbins gmat * 2) = Inr ?h0"
    by (rule flat_fill_result [OF assms])
  have "forM (List.product [0..<length rid] (work_items ?nwg ?w))
         (\<lambda>(i, group_id, local_id).
            BuildHistKernel_atomic_item isDense bt pgh rid gmat ?w i group_id local_id) ?h0
        \<noteq> Inl OutOfBounds"
  proof (rule forM_never [where P = "\<lambda>h. length h = length hist"])
    show "length ?h0 = length hist" using assms by simp
    fix x :: "nat \<times> nat \<times> nat" and s :: "'a GradientPairInternal list"
    obtain i a l where x: "x = (i, a, l)" by (cases x) auto
    assume "length s = length hist"
    then show "(case x of (i, group_id, local_id) \<Rightarrow>
           BuildHistKernel_atomic_item isDense bt pgh rid gmat ?w i group_id local_id) s
          \<noteq> Inl OutOfBounds \<and>
        (\<forall>s'. (case x of (i, group_id, local_id) \<Rightarrow>
           BuildHistKernel_atomic_item isDense bt pgh rid gmat ?w i group_id local_id) s = Inr s'
          \<longrightarrow> length s' = length hist)"
      unfolding x prod.case
      using atomic_item_in_bounds [of gmat s isDense bt pgh rid ?w i a l] assms by simp
  qed
  with f False show ?thesis
    unfolding BuildHistKernel_atomic_def Let_def by simp
qed

section \<open>The kernel with local private bins\<close>

lemma writesP_forM:
  assumes "\<And>x. x \<in> set xs \<Longrightarrow> writesP ok prj (body x) (W x) v"
  shows "writesP ok prj (forM xs body) (\<Union>x \<in> set xs. W x) v"
  using assms
proof (induction xs)
  case Nil
  then show ?case by (simp add: writesP_def)
next
  case (Cons x xs)
  have hx: "writesP ok prj (body x) (W x) v" using Cons.prems by simp
  have hxs: "writesP ok prj (forM xs body) (\<Union>x \<in> set xs. W x) v" using Cons by simp
  show ?case
    unfolding writesP_def
  proof (intro allI impI)
    fix s assume "ok s"
    with hx obtain s1 where s1: "body x s = Inr s1" "ok s1" "length (prj s1) = length (prj s)"
      "\<forall>k < length (prj s). prj s1 ! k = (if k \<in> W x then v k else prj s ! k)"
      unfolding writesP_def by blast
    with hxs obtain s2 where s2: "forM xs body s1 = Inr s2" "ok s2"
      "length (prj s2) = length (prj s1)"
      "\<forall>k < length (prj s1). prj s2 ! k = (if k \<in> (\<Union>x \<in> set xs. W x) then v k else prj s1 ! k)"
      unfolding writesP_def by blast
    have "\<forall>k < length (prj s).
        prj s2 ! k = (if k \<in> (\<Union>x \<in> set (x # xs). W x) then v k else prj s ! k)"
      using s1(3,4) s2(4) by auto
    with s1 s2 show "\<exists>s'. forM (x # xs) body s = Inr s' \<and> ok s' \<and>
        length (prj s') = length (prj s) \<and>
        (\<forall>k < length (prj s).
           prj s' ! k = (if k \<in> (\<Union>x \<in> set (x # xs). W x) then v k else prj s ! k))"
      by simp
  qed
qed

lemma forM_store_range:
  assumes "\<And>i s. i < m \<Longrightarrow> length s = L \<Longrightarrow> body i s = store s (base + i) (g i)"
    and "base + m \<le> L" "length s = L"
  shows "\<exists>s'. forM [0..<m] body s = Inr s' \<and> length s' = L \<and>
           (\<forall>k < L. s' ! k = (if base \<le> k \<and> k < base + m then g (k - base) else s ! k))"
  using assms(1,2)
proof (induction m)
  case 0
  then show ?case using assms(3) by auto
next
  case (Suc m)
  have "\<exists>s'. forM [0..<m] body s = Inr s' \<and> length s' = L \<and>
           (\<forall>k < L. s' ! k = (if base \<le> k \<and> k < base + m then g (k - base) else s ! k))"
    by (rule Suc.IH) (use Suc.prems in auto)
  then obtain s1 where s1: "forM [0..<m] body s = Inr s1" "length s1 = L"
    "\<forall>k < L. s1 ! k = (if base \<le> k \<and> k < base + m then g (k - base) else s ! k)"
    by blast
  have b: "body m s1 = Inr (s1[base + m := g m])"
    using Suc.prems(1) [of m s1] s1(2) Suc.prems(2) by (simp add: store_def)
  have "(s1[base + m := g m]) ! k =
      (if base \<le> k \<and> k < base + Suc m then g (k - base) else s ! k)" if "k < L" for k
  proof (cases "k = base + m")
    case True
    then show ?thesis using that s1(2) by simp
  next
    case False
    then have "k < base + Suc m \<longleftrightarrow> k < base + m" by auto
    with False that s1(2,3) show ?thesis by simp
  qed
  with s1 b show ?case
    by (simp add: forM_append)
qed

lemma cut_ptrs_step:
  assumes "cut_ptrs_wf gmat" "f < nfeatures gmat"
  shows "unat (cut_ptrs gmat f) \<le> unat (cut_ptrs gmat (Suc f))"
    and "unat (cut_ptrs gmat (Suc f) - cut_ptrs gmat f) =
         unat (cut_ptrs gmat (Suc f)) - unat (cut_ptrs gmat f)"
proof -
  have le: "cut_ptrs gmat f \<le> cut_ptrs gmat (Suc f)"
    using assms by (simp add: cut_ptrs_wf_def list_all_iff)
  then show "unat (cut_ptrs gmat f) \<le> unat (cut_ptrs gmat (Suc f))"
    by (simp add: word_le_nat_alt)
  from le show "unat (cut_ptrs gmat (Suc f) - cut_ptrs gmat f) =
         unat (cut_ptrs gmat (Suc f)) - unat (cut_ptrs gmat f)"
    by (rule unat_sub)
qed

lemma cut_ptrs_mono:
  assumes "cut_ptrs_wf gmat"
  shows "g \<le> nfeatures gmat \<Longrightarrow> f \<le> g \<Longrightarrow> unat (cut_ptrs gmat f) \<le> unat (cut_ptrs gmat g)"
proof (induction g)
  case 0
  then show ?case by simp
next
  case (Suc g)
  show ?case
  proof (cases "f = Suc g")
    case True
    then show ?thesis by simp
  next
    case False
    with Suc have "unat (cut_ptrs gmat f) \<le> unat (cut_ptrs gmat g)" by simp
    moreover have "unat (cut_ptrs gmat g) \<le> unat (cut_ptrs gmat (Suc g))"
      using cut_ptrs_step(1) [OF assms, of g] Suc.prems by simp
    ultimately show ?thesis by simp
  qed
qed

lemma cut_ptrs_top:
  assumes "cut_ptrs_wf gmat" "f \<le> nfeatures gmat"
  shows "unat (cut_ptrs gmat f) \<le> nbins gmat"
  using cut_ptrs_mono [OF assms(1) order_refl assms(2)] assms(1)
  by (simp add: cut_ptrs_wf_def)

lemma feature_unique:
  assumes "cut_ptrs_wf gmat" "f < nfeatures gmat" "g < nfeatures gmat"
    and "unat (cut_ptrs gmat f) \<le> x" "x < unat (cut_ptrs gmat (Suc f))"
    and "unat (cut_ptrs gmat g) \<le> x" "x < unat (cut_ptrs gmat (Suc g))"
  shows "f = g"
proof (rule ccontr)
  assume "f \<noteq> g"
  then consider "f < g" | "g < f" by linarith
  then show False
  proof cases
    case 1
    then have "unat (cut_ptrs gmat (Suc f)) \<le> unat (cut_ptrs gmat g)"
      using cut_ptrs_mono [OF assms(1), of g "Suc f"] assms(3) by simp
    with assms(5,6) show False by simp
  next
    case 2
    then have "unat (cut_ptrs gmat (Suc g)) \<le> unat (cut_ptrs gmat f)"
      using cut_ptrs_mono [OF assms(1), of f "Suc g"] assms(2) by simp
    with assms(4,7) show False by simp
  qed
qed

lemma step_cover:
  fixes c :: "nat \<Rightarrow> nat"
  assumes "c 0 = 0"
  shows "b < c n \<Longrightarrow> \<exists>f < n. c f \<le> b \<and> b < c (Suc f)"
proof (induction n)
  case 0
  then show ?case using assms by simp
next
  case (Suc n)
  show ?case
  proof (cases "b < c n")
    case True
    with Suc.IH obtain f where "f < n" "c f \<le> b" "b < c (Suc f)" by blast
    then show ?thesis using less_Suc_eq by blast
  next
    case False
    with Suc.prems show ?thesis by (intro exI [of _ n]) simp
  qed
qed

lemma feature_cover:
  assumes "cut_ptrs_wf gmat" "b < nbins gmat"
  shows "\<exists>f < nfeatures gmat. unat (cut_ptrs gmat f) \<le> b \<and> b < unat (cut_ptrs gmat (Suc f))"
proof -
  have "unat (cut_ptrs gmat 0) = 0" using assms(1) by (simp add: cut_ptrs_wf_def)
  moreover have "b < unat (cut_ptrs gmat (nfeatures gmat))"
    using assms by (simp add: cut_ptrs_wf_def)
  ultimately show ?thesis
    using step_cover [of "\<lambda>f. unat (cut_ptrs gmat f)" b "nfeatures gmat"] by simp
qed

lemma dense_cell:
  assumes "cut_ptrs_wf gmat" "dense_bins_wf bt rid gmat" "i < length rid" "f < nfeatures gmat"
  shows "unat (index_data gmat bt (nfeatures gmat * rid ! i + f)) + unat (cut_ptrs gmat f)
           < unat (cut_ptrs gmat (Suc f))"
    and "unat (bin_index True bt gmat (nfeatures gmat * rid ! i) f) =
           unat (cut_ptrs gmat f) + unat (index_data gmat bt (nfeatures gmat * rid ! i + f))"
proof -
  let ?l = "index_data gmat bt (nfeatures gmat * rid ! i + f)"
  have "rid ! i \<in> set rid" using assms(3) by simp
  with assms(2,4) have "?l < cut_ptrs gmat (f + 1) - cut_ptrs gmat f"
    unfolding dense_bins_wf_def list_all_iff by simp
  then have "unat ?l < unat (cut_ptrs gmat (Suc f)) - unat (cut_ptrs gmat f)"
    using cut_ptrs_step(2) [OF assms(1,4)] by (simp add: word_less_nat_alt)
  then show lt: "unat ?l + unat (cut_ptrs gmat f) < unat (cut_ptrs gmat (Suc f))"
    by simp
  have "unat (cut_ptrs gmat (Suc f)) < 2 ^ LENGTH(32)"
    by (rule unsigned_less)
  with lt have "unat ?l + unat (cut_ptrs gmat f) < 2 ^ LENGTH(32)" by simp
  then have "unat (?l + cut_ptrs gmat f) = unat ?l + unat (cut_ptrs gmat f)"
    by (rule unat_add_lem [THEN iffD1])
  then show "unat (bin_index True bt gmat (nfeatures gmat * rid ! i) f) =
           unat (cut_ptrs gmat f) + unat ?l"
    by (simp add: bin_index_def)
qed

lemma block_spec_dense:
  fixes pgh :: "nat \<Rightarrow> 'b::comm_monoid_add"
  assumes "cut_ptrs_wf gmat" "dense_bins_wf bt rid gmat" "f < nfeatures gmat"
    and "unat (cut_ptrs gmat f) + bin < unat (cut_ptrs gmat (Suc f))"
  shows "block_spec True bt pgh rid gmat bs B (unat (cut_ptrs gmat f) + bin) =
     (\<Sum>idx < bs.
        if B * bs + idx < length rid
        then (if bin = unat (index_data gmat bt (nfeatures gmat * rid ! (B * bs + idx) + f))
              then pgh (rid ! (B * bs + idx)) else 0)
        else 0)"
proof -
  have row: "(\<Sum>j < nfeatures gmat.
                if unat (bin_index True bt gmat (nfeatures gmat * rid ! i) j)
                     = unat (cut_ptrs gmat f) + bin
                then pgh (rid ! i) else 0) =
      (if bin = unat (index_data gmat bt (nfeatures gmat * rid ! i + f))
       then pgh (rid ! i) else 0)" if i: "i < length rid" for i
  proof -
    have "(if unat (bin_index True bt gmat (nfeatures gmat * rid ! i) j)
                     = unat (cut_ptrs gmat f) + bin
                then pgh (rid ! i) else 0) =
        (if j = f then
           (if bin = unat (index_data gmat bt (nfeatures gmat * rid ! i + f))
            then pgh (rid ! i) else 0) else 0)" if j: "j \<in> {..<nfeatures gmat}" for j
    proof (cases "j = f")
      case True
      then show ?thesis
        using dense_cell(2) [OF assms(1,2) i assms(3)] by auto
    next
      case False
      have jn: "j < nfeatures gmat" using j by simp
      have "unat (bin_index True bt gmat (nfeatures gmat * rid ! i) j)
          \<noteq> unat (cut_ptrs gmat f) + bin"
      proof
        assume eq: "unat (bin_index True bt gmat (nfeatures gmat * rid ! i) j)
          = unat (cut_ptrs gmat f) + bin"
        let ?x = "unat (cut_ptrs gmat f) + bin"
        have "unat (cut_ptrs gmat j) \<le> ?x" "?x < unat (cut_ptrs gmat (Suc j))"
          using dense_cell [OF assms(1,2) i jn] eq by simp_all
        from feature_unique [OF assms(1) jn assms(3) this] assms(4) False
        show False by simp
      qed
      with False show ?thesis by simp
    qed
    then have "(\<Sum>j < nfeatures gmat.
                if unat (bin_index True bt gmat (nfeatures gmat * rid ! i) j)
                     = unat (cut_ptrs gmat f) + bin
                then pgh (rid ! i) else 0) =
        (\<Sum>j < nfeatures gmat. if j = f then
           (if bin = unat (index_data gmat bt (nfeatures gmat * rid ! i + f))
            then pgh (rid ! i) else 0) else 0)"
      by (intro sum.cong refl)
    also have "\<dots> = (if bin = unat (index_data gmat bt (nfeatures gmat * rid ! i + f))
            then pgh (rid ! i) else 0)"
      using assms(3) by simp
    finally show ?thesis .
  qed
  show ?thesis
    unfolding block_spec_def n_columns_def if_True
    by (intro sum.cong refl) (simp add: row)
qed


lemma unat_bin_plus_offset:
  fixes c :: "32 word"
  assumes "bin + unat c < unat (c' :: 32 word)"
  shows "unat (word_of_nat bin + c) = unat c + bin"
proof -
  have lt: "unat c' < 2 ^ LENGTH(32)" by (rule unsigned_less)
  with assms have "bin < 2 ^ LENGTH(32)" by simp
  then have b: "unat (word_of_nat bin :: 32 word) = bin"
    by (simp add: unat_of_nat take_bit_nat_eq_self)
  with assms lt have "unat (word_of_nat bin :: 32 word) + unat c < 2 ^ LENGTH(32)" by simp
  then have "unat (word_of_nat bin + c) = unat (word_of_nat bin :: 32 word) + unat c"
    by (rule unat_add_lem [THEN iffD1])
  with b show ?thesis by simp
qed

lemma local_feature_writes:
  fixes pgh :: "nat \<Rightarrow> 'a::comm_monoid_add GradientPairInternal"
  assumes "cut_ptrs_wf gmat" "dense_bins_wf bt rid gmat" "local_hist_fits kMax gmat"
    and "B < block_nblocks d" "block_nblocks d * nbins gmat \<le> L" "fid < nfeatures gmat"
  shows "writesP (\<lambda>(hf, buf). length hf = kMax \<and> length buf = L) snd
          (BuildHistKernelLocal_feature bt pgh rid gmat d B fid)
          {B * nbins gmat + unat (cut_ptrs gmat fid)
             ..< B * nbins gmat + unat (cut_ptrs gmat (Suc fid))}
          (\<lambda>k. block_spec True bt pgh rid gmat (block_size d)
                 (k div nbins gmat) (k mod nbins gmat))"
  unfolding writesP_def
proof (intro allI impI)
  fix s :: "'a GradientPairInternal list \<times> 'a GradientPairInternal list"
  assume ok: "case s of (hf, buf) \<Rightarrow> length hf = kMax \<and> length buf = L"
  obtain hf buf where s: "s = (hf, buf)" by (cases s) auto
  with ok have lhf: "length hf = kMax" and lbuf: "length buf = L" by simp_all
  let ?o0 = "unat (cut_ptrs gmat fid)" and ?o1 = "unat (cut_ptrs gmat (Suc fid))"
  let ?nbf = "unat (cut_ptrs gmat (fid + 1) - cut_ptrs gmat fid)"
  let ?bs = "block_size d"
  let ?local = "\<lambda>i. unat (index_data gmat bt (nfeatures gmat * rid ! i + fid))"
  let ?base = "B * nbins gmat + ?o0"
  have nbf: "?nbf = ?o1 - ?o0" and o01: "?o0 \<le> ?o1"
    using cut_ptrs_step [OF assms(1,6)] by simp_all
  have fits: "?nbf \<le> kMax"
  proof -
    have "fid \<in> set [0..<nfeatures gmat]" using assms(6) by simp
    with assms(3) have "?nbf \<le> max_num_bins gmat" "max_num_bins gmat \<le> kMax"
      unfolding local_hist_fits_def list_all_iff by blast+
    then show ?thesis by simp
  qed
  have o1: "?o1 \<le> nbins gmat"
    using cut_ptrs_top [OF assms(1), of "Suc fid"] assms(6) by simp
  let ?hf1 = "map (\<lambda>bin. 0) [0..<?nbf] @ drop ?nbf hf"
  have z: "forM [0..<?nbf] (\<lambda>bin hf. store hf bin 0) hf = Inr ?hf1"
    by (rule forM_store_upt [where L = kMax]) (use fits lhf in auto)
  have lhf1: "length ?hf1 = kMax" using fits lhf by simp
  have loc: "?local i < kMax" if "i < length rid" for i
    using dense_cell(1) [OF assms(1,2) that assms(6)] nbf fits by simp
  have "hist_adds kMax
      (forM [0..<?bs]
         (\<lambda>idx hf. if B * ?bs + idx < length rid
            then accumulate hf (?local (B * ?bs + idx)) (pgh (rid ! (B * ?bs + idx)))
            else Inr hf))
      (\<lambda>k. sum_list (map
          (\<lambda>idx. if B * ?bs + idx < length rid
             then (if k = ?local (B * ?bs + idx) then pgh (rid ! (B * ?bs + idx)) else 0)
             else 0) [0..<?bs]))"
    by (rule hist_adds_forM) (rule hist_adds_if, rule hist_adds_accumulate, rule loc)
  with lhf1 obtain hf2 where run2: "forM [0..<?bs]
         (\<lambda>idx hf. if B * ?bs + idx < length rid
            then accumulate hf (?local (B * ?bs + idx)) (pgh (rid ! (B * ?bs + idx)))
            else Inr hf) ?hf1 = Inr hf2"
    and lhf2: "length hf2 = kMax"
    and v2: "\<forall>k < kMax. hf2 ! k = ?hf1 ! k + (\<Sum>idx < ?bs.
             if B * ?bs + idx < length rid
             then (if k = ?local (B * ?bs + idx) then pgh (rid ! (B * ?bs + idx)) else 0)
             else 0)"
    unfolding hist_adds_def sum_list_upt_conv by blast
  have hf2: "hf2 ! bin = block_spec True bt pgh rid gmat ?bs B (?o0 + bin)" if "bin < ?nbf" for bin
  proof -
    have "?hf1 ! bin = 0" using that by (simp add: nth_append)
    moreover have "bin < kMax" using that fits by simp
    moreover have "?o0 + bin < ?o1" using that nbf by simp
    ultimately show ?thesis
      using v2 block_spec_dense [OF assms(1,2,6), of bin pgh ?bs B] by simp
  qed
  have wr: "(case load hf2 bin of
               Inl e \<Rightarrow> Inl e
             | Inr v \<Rightarrow>
                 store t (B * nbins gmat + unat (word_of_nat bin + cut_ptrs gmat fid)) v) =
            store t (?base + bin) (hf2 ! bin)" if "bin < ?nbf" for bin and t :: "'a GradientPairInternal list"
  proof -
    have "bin + ?o0 < ?o1" using that nbf by simp
    from unat_bin_plus_offset [OF this]
    have "unat (word_of_nat bin + cut_ptrs gmat fid) = ?o0 + bin" .
    moreover have "load hf2 bin = Inr (hf2 ! bin)"
      using that fits lhf2 by (simp add: load_def)
    ultimately show ?thesis by (simp add: add.assoc)
  qed
  have top: "?base + ?nbf \<le> L"
  proof -
    have "?base + ?nbf = B * nbins gmat + ?o1" using nbf o01 by simp
    also have "\<dots> \<le> B * nbins gmat + nbins gmat" using o1 by simp
    also have "\<dots> = Suc B * nbins gmat" by simp
    also have "\<dots> \<le> block_nblocks d * nbins gmat"
      using assms(4) by (intro mult_le_mono1) simp
    finally show ?thesis using assms(5) by simp
  qed
  from forM_store_range [where body = "\<lambda>bin buf. case load hf2 bin of
               Inl e \<Rightarrow> Inl e
             | Inr v \<Rightarrow>
                 store buf (B * nbins gmat + unat (word_of_nat bin + cut_ptrs gmat fid)) v"
      and m = ?nbf and L = L and base = ?base and g = "\<lambda>bin. hf2 ! bin" and s = buf,
      OF wr top lbuf]
  obtain buf' where run3: "forM [0..<?nbf] (\<lambda>bin buf. case load hf2 bin of
               Inl e \<Rightarrow> Inl e
             | Inr v \<Rightarrow>
                 store buf (B * nbins gmat + unat (word_of_nat bin + cut_ptrs gmat fid)) v) buf
        = Inr buf'"
    and lbuf': "length buf' = L"
    and v3: "\<forall>k < L. buf' ! k =
        (if ?base \<le> k \<and> k < ?base + ?nbf then hf2 ! (k - ?base) else buf ! k)"
    by blast
  have res: "BuildHistKernelLocal_feature bt pgh rid gmat d B fid s = Inr (hf2, buf')"
    unfolding BuildHistKernelLocal_feature_def s prod.case Let_def z sum.case run2 run3 ..
  have range_eq: "?base + ?nbf = B * nbins gmat + ?o1" using nbf o01 by simp
  have val: "buf' ! k =
      (if k \<in> {?base ..< B * nbins gmat + ?o1}
       then block_spec True bt pgh rid gmat ?bs (k div nbins gmat) (k mod nbins gmat)
       else buf ! k)" if "k < L" for k
  proof (cases "k \<in> {?base ..< B * nbins gmat + ?o1}")
    case True
    define bin where "bin = k - ?base"
    have k: "k = B * nbins gmat + (?o0 + bin)" and bin: "bin < ?nbf"
      using True range_eq unfolding bin_def by auto
    have lt: "?o0 + bin < nbins gmat" using bin nbf o1 by simp
    then have dm: "k div nbins gmat = B" "k mod nbins gmat = ?o0 + bin"
      unfolding k by simp_all
    have "?base \<le> k \<and> k < ?base + ?nbf" unfolding range_eq using True by simp
    with v3 that have "buf' ! k = hf2 ! bin" by (auto simp: bin_def)
    with hf2 [OF bin] True show ?thesis unfolding dm by auto
  next
    case False
    then have "\<not> (?base \<le> k \<and> k < ?base + ?nbf)" unfolding range_eq by simp
    with v3 that have "buf' ! k = buf ! k" by auto
    with False show ?thesis by auto
  qed
  show "\<exists>s'. BuildHistKernelLocal_feature bt pgh rid gmat d B fid s = Inr s' \<and>
         (case s' of (hf, buf) \<Rightarrow> length hf = kMax \<and> length buf = L) \<and>
         length (snd s') = length (snd s) \<and>
         (\<forall>k < length (snd s).
            snd s' ! k =
              (if k \<in> {?base ..< B * nbins gmat + ?o1}
               then block_spec True bt pgh rid gmat ?bs (k div nbins gmat) (k mod nbins gmat)
               else snd s ! k))"
    using res lhf2 lbuf' lbuf val by (simp add: s)
qed


lemma strided_bound: "x \<in> set (strided j n w) \<Longrightarrow> x < n"
proof (cases "0 < w")
  case True
  assume "x \<in> set (strided j n w)"
  with True show ?thesis by (simp add: strided_set)
next
  case False
  assume x: "x \<in> set (strided j n w)"
  from False have "strided j n w = []" by (subst strided.simps) simp
  with x show ?thesis by simp
qed

lemma local_item_writes:
  fixes pgh :: "nat \<Rightarrow> 'a::comm_monoid_add GradientPairInternal"
  assumes "cut_ptrs_wf gmat" "dense_bins_wf bt rid gmat" "local_hist_fits kMax gmat"
    and "B < block_nblocks d" "block_nblocks d * nbins gmat \<le> L"
  shows "writesP (\<lambda>buf. length buf = L) (\<lambda>buf. buf)
          (BuildHistKernelLocal_item kMax uninit bt pgh rid gmat d B feat)
          (\<Union>fid \<in> set (strided feat (nfeatures gmat) (work_group_size d)).
             {B * nbins gmat + unat (cut_ptrs gmat fid)
                ..< B * nbins gmat + unat (cut_ptrs gmat (Suc fid))})
          (\<lambda>k. block_spec True bt pgh rid gmat (block_size d)
                 (k div nbins gmat) (k mod nbins gmat))"
proof -
  let ?v = "\<lambda>k. block_spec True bt pgh rid gmat (block_size d) (k div nbins gmat) (k mod nbins gmat)"
  let ?W = "\<lambda>fid. {B * nbins gmat + unat (cut_ptrs gmat fid)
                ..< B * nbins gmat + unat (cut_ptrs gmat (Suc fid))}"
  let ?xs = "strided feat (nfeatures gmat) (work_group_size d)"
  have loop: "writesP (\<lambda>(hf, buf). length hf = kMax \<and> length buf = L) snd
      (forM ?xs (BuildHistKernelLocal_feature bt pgh rid gmat d B)) (\<Union>fid \<in> set ?xs. ?W fid) ?v"
  proof (rule writesP_forM)
    fix fid assume "fid \<in> set ?xs"
    then have "fid < nfeatures gmat" by (rule strided_bound)
    then show "writesP (\<lambda>(hf, buf). length hf = kMax \<and> length buf = L) snd
        (BuildHistKernelLocal_feature bt pgh rid gmat d B fid) (?W fid) ?v"
      by (rule local_feature_writes [OF assms])
  qed
  show ?thesis
    unfolding writesP_def
  proof (intro allI impI)
    fix buf :: "'a GradientPairInternal list"
    assume len: "length buf = L"
    then have "(\<lambda>(hf, buf). length hf = kMax \<and> length buf = L) (map uninit [0..<kMax], buf)"
      by simp
    with loop obtain s' where s': "forM ?xs (BuildHistKernelLocal_feature bt pgh rid gmat d B)
        (map uninit [0..<kMax], buf) = Inr s'"
      "case s' of (hf, buf) \<Rightarrow> length hf = kMax \<and> length buf = L"
      "\<forall>k < length (snd (map uninit [0..<kMax], buf)).
         snd s' ! k = (if k \<in> (\<Union>fid \<in> set ?xs. ?W fid) then ?v k
                       else snd (map uninit [0..<kMax], buf) ! k)"
      unfolding writesP_def by blast
    obtain hf' buf' where p: "s' = (hf', buf')" by (cases s') auto
    have "BuildHistKernelLocal_item kMax uninit bt pgh rid gmat d B feat buf = Inr buf'"
      unfolding BuildHistKernelLocal_item_def s'(1) p by simp
    moreover have "length buf' = L" using s'(2) p by simp
    moreover have "\<forall>k < length buf.
        buf' ! k = (if k \<in> (\<Union>fid \<in> set ?xs. ?W fid) then ?v k else buf ! k)"
      using s'(3) p by auto
    ultimately show "\<exists>s'. BuildHistKernelLocal_item kMax uninit bt pgh rid gmat d B feat buf
          = Inr s' \<and> length s' = L \<and> length s' = length buf \<and>
        (\<forall>k < length buf.
           s' ! k = (if k \<in> (\<Union>fid \<in> set ?xs. ?W fid) then ?v k else buf ! k))"
      using len by simp
  qed
qed

lemma BuildHistKernelLocal_run:
  fixes pgh :: "nat \<Rightarrow> 'a::comm_monoid_add GradientPairInternal"
  assumes "cut_ptrs_wf gmat" "dense_bins_wf bt rid gmat" "local_hist_fits kMax gmat"
    and "block_nblocks d * nbins gmat \<le> length buf" "nbins gmat \<le> length hist"
  shows "\<exists>buf1. BuildHistKernelLocal kMax uninit bt pgh rid gmat hist buf d =
           Inr (map (\<lambda>b. \<Sum>B < block_nblocks d. buf1 ! (B * nbins gmat + b)) [0..<nbins gmat]
                  @ drop (nbins gmat) hist, buf1) \<and>
         length buf1 = length buf \<and>
         (0 < work_group_size d \<longrightarrow>
            (\<forall>B < block_nblocks d. \<forall>b < nbins gmat.
               buf1 ! (B * nbins gmat + b) = block_spec True bt pgh rid gmat (block_size d) B b))"
proof -
  let ?v = "\<lambda>k. block_spec True bt pgh rid gmat (block_size d) (k div nbins gmat) (k mod nbins gmat)"
  let ?W = "\<lambda>x. case x of (B, feat) \<Rightarrow>
      (\<Union>fid \<in> set (strided feat (nfeatures gmat) (work_group_size d)).
             {B * nbins gmat + unat (cut_ptrs gmat fid)
                ..< B * nbins gmat + unat (cut_ptrs gmat (Suc fid))})"
  let ?items = "work_items (block_nblocks d) (work_group_size d)"
  have main: "writesP (\<lambda>b. length b = length buf) (\<lambda>buf. buf)
      (forM ?items (\<lambda>(block, feat).
         BuildHistKernelLocal_item kMax uninit bt pgh rid gmat d block feat))
      (\<Union>x \<in> set ?items. ?W x) ?v"
  proof (rule writesP_forM)
    fix x assume "x \<in> set ?items"
    then obtain B feat where x: "x = (B, feat)" "B < block_nblocks d"
      by (auto simp: work_items_set)
    show "writesP (\<lambda>b. length b = length buf) (\<lambda>buf. buf)
        (case x of (block, feat) \<Rightarrow>
           BuildHistKernelLocal_item kMax uninit bt pgh rid gmat d block feat) (?W x) ?v"
      unfolding x prod.case by (rule local_item_writes [OF assms(1,2,3) x(2) assms(4)])
  qed
  then obtain buf1 where run: "forM ?items (\<lambda>(block, feat).
         BuildHistKernelLocal_item kMax uninit bt pgh rid gmat d block feat) buf = Inr buf1"
    and len1: "length buf1 = length buf"
    and val: "\<forall>k < length buf. buf1 ! k = (if k \<in> (\<Union>x \<in> set ?items. ?W x) then ?v k else buf ! k)"
    unfolding writesP_def by blast
  have red: "ReduceHist hist buf1 (block_nblocks d) (nbins gmat) =
      Inr (map (\<lambda>b. \<Sum>B < block_nblocks d. buf1 ! (B * nbins gmat + b)) [0..<nbins gmat]
             @ drop (nbins gmat) hist)"
    by (rule ReduceHist_result) (use assms len1 in auto)
  have res: "BuildHistKernelLocal kMax uninit bt pgh rid gmat hist buf d =
           Inr (map (\<lambda>b. \<Sum>B < block_nblocks d. buf1 ! (B * nbins gmat + b)) [0..<nbins gmat]
                  @ drop (nbins gmat) hist, buf1)"
    unfolding BuildHistKernelLocal_def run sum.case red ..
  have "buf1 ! (B * nbins gmat + b) = block_spec True bt pgh rid gmat (block_size d) B b"
    if w: "0 < work_group_size d" and B: "B < block_nblocks d" and b: "b < nbins gmat" for B b
  proof -
    from feature_cover [OF assms(1) b] obtain f where f: "f < nfeatures gmat"
      "unat (cut_ptrs gmat f) \<le> b" "b < unat (cut_ptrs gmat (Suc f))" by blast
    have "f mod work_group_size d < work_group_size d" using w by simp
    moreover have "f \<in> set (strided (f mod work_group_size d) (nfeatures gmat) (work_group_size d))"
      using f(1) w by (simp add: strided_set)
    ultimately have "B * nbins gmat + b \<in> ?W (B, f mod work_group_size d)"
      using f(2,3) by auto
    moreover have "(B, f mod work_group_size d) \<in> set ?items"
      using B w by (simp add: work_items_set)
    ultimately have mem: "B * nbins gmat + b \<in> (\<Union>x \<in> set ?items. ?W x)"
      by blast
    have "B * nbins gmat + b < block_nblocks d * nbins gmat"
      by (rule slice_index_bound [OF B b])
    then have "B * nbins gmat + b < length buf" using assms(4) by simp
    with val mem have "buf1 ! (B * nbins gmat + b) = ?v (B * nbins gmat + b)" by simp
    then show ?thesis using b by simp
  qed
  with res len1 show ?thesis by blast
qed

section \<open>Histograms built by the kernels\<close>

lemma lessThan_two: "{..<(2 :: nat)} = {0, 1}"
  by auto

lemma example_bins:
  "unat (bin_index True kUint8BinsTypeSize example_gmat (n_columns True example_gmat * 0) 0) = 0"
  "unat (bin_index True kUint8BinsTypeSize example_gmat (n_columns True example_gmat * 0) 1) = 3"
  "unat (bin_index True kUint8BinsTypeSize example_gmat (n_columns True example_gmat * 1) 0) = 1"
  "unat (bin_index True kUint8BinsTypeSize example_gmat (n_columns True example_gmat * 1) 1) = 2"
  by (simp_all add: example_gmat_def bin_index_def n_columns_def)

lemma example_histogram_spec:
  fixes w :: "nat \<Rightarrow> 'b::comm_monoid_add"
  shows "map (histogram_spec True kUint8BinsTypeSize w [0, 1] example_gmat)
     [0..<nbins example_gmat] = [w 0, w 1, w 1, w 0]"
proof -
  have n: "nbins example_gmat = 4" "n_columns True example_gmat = 2"
    by (simp_all add: example_gmat_def n_columns_def)
  have "histogram_spec True kUint8BinsTypeSize w [0, 1] example_gmat b =
      (if b = 0 then w 0 else 0) + (if b = 3 then w 0 else 0) +
      (if b = 1 then w 1 else 0) + (if b = 2 then w 1 else 0)" for b
    unfolding histogram_spec_def
    using example_bins
    by (simp add: n lessThan_two add.assoc eq_commute [of _ b])
  then show ?thesis
    by (simp add: n upt_rec)
qed

lemma example_wf:
  "cut_ptrs_wf example_gmat" "dense_bins_wf kUint8BinsTypeSize [0, 1] example_gmat"
  "local_hist_fits 2 example_gmat"
  by (simp_all add: cut_ptrs_wf_def dense_bins_wf_def local_hist_fits_def example_gmat_def
      upt_rec)




lemma example_atomic:
  "BuildHistKernel_atomic True kUint8BinsTypeSize example_gpair [0, 1] example_gmat
     (replicate 4 0) example_dispatcher =
     Inr [GradientPairInternal 1 2, GradientPairInternal 3 4,
          GradientPairInternal 3 4, GradientPairInternal 1 2]"
proof -
  have "0 < work_group_size example_dispatcher"
    "nbins example_gmat \<le> length (replicate 4 (0 :: int GradientPairInternal))"
    "nbins example_gmat \<le> 2 ^ 31" "length [0 :: nat, 1] \<le> 2 ^ 31"
    by (simp_all add: example_dispatcher_def example_gmat_def)
  from BuildHistKernel_atomic_result [OF this, where isDense = True
      and bt = kUint8BinsTypeSize and pgh = example_gpair]
  show ?thesis
    unfolding example_histogram_spec by (simp add: example_gmat_def example_gpair_def)
qed

section \<open>The kernels are parametric in the additions\<close>

lemma forM_transfer [transfer_rule]:
  "rel_fun (list_all2 A)
     (rel_fun (rel_fun A (rel_fun S (rel_sum ((=) :: error \<Rightarrow> error \<Rightarrow> bool) S)))
        (rel_fun S (rel_sum (=) S))) forM forM"
proof (intro rel_funI)
  fix xs ys and f :: "'a \<Rightarrow> 'c \<Rightarrow> error + 'c" and g :: "'b \<Rightarrow> 'd \<Rightarrow> error + 'd" and s t
  assume "list_all2 A xs ys" and fg: "rel_fun A (rel_fun S (rel_sum (=) S)) f g" and "S s t"
  then show "rel_sum (=) S (forM xs f s) (forM ys g t)"
  proof (induction xs ys arbitrary: s t rule: list_all2_induct)
    case Nil
    then show ?case by simp
  next
    case (Cons x xs y ys)
    from fg Cons.hyps(1) Cons.prems(2) have "rel_sum (=) S (f x s) (g y t)"
      by (auto dest: rel_funD)
    then show ?case
      using Cons.IH [OF fg] by (cases "f x s"; cases "g y t") simp_all
  qed
qed

lemma accumulate_transfer [transfer_rule]:
  assumes [transfer_rule]: "rel_fun R (rel_fun R R) (+) (+)"
  shows "rel_fun (list_all2 R) (rel_fun (=) (rel_fun R (rel_sum (=) (list_all2 R))))
           accumulate accumulate"
proof (intro rel_funI)
  fix h t and k k' :: nat and p q
  assume ht: "list_all2 R h t" and "k = k'" and pq: "R p q"
  have len: "length h = length t" using ht by (rule list_all2_lengthD)
  show "rel_sum (=) (list_all2 R) (accumulate h k p) (accumulate t k' q)"
  proof (cases "k < length h")
    case True
    have "R (h ! k) (t ! k)" using ht True by (rule list_all2_nthD)
    with assms pq have "R (h ! k + p) (t ! k + q)" by (auto dest: rel_funD)
    with ht have "list_all2 R (h[k := h ! k + p]) (t[k := t ! k + q])"
      by (rule list_all2_update_cong)
    with True len \<open>k = k'\<close> show ?thesis by (simp add: accumulate_def)
  next
    case False
    with len \<open>k = k'\<close> show ?thesis by (simp add: accumulate_def)
  qed
qed

lemma load_transfer [transfer_rule]:
  "rel_fun (list_all2 R) (rel_fun (=) (rel_sum (=) R)) load load"
proof (intro rel_funI)
  fix h t and k k' :: nat
  assume ht: "list_all2 R h t" and "k = k'"
  have len: "length h = length t" using ht by (rule list_all2_lengthD)
  show "rel_sum (=) R (load h k) (load t k')"
    using len \<open>k = k'\<close> list_all2_nthD [OF ht] by (simp add: load_def)
qed

lemma store_transfer [transfer_rule]:
  "rel_fun (list_all2 R) (rel_fun (=) (rel_fun R (rel_sum (=) (list_all2 R)))) store store"
proof (intro rel_funI)
  fix h t and k k' :: nat and p q
  assume ht: "list_all2 R h t" and "k = k'" and pq: "R p q"
  have len: "length h = length t" using ht by (rule list_all2_lengthD)
  show "rel_sum (=) (list_all2 R) (store h k p) (store t k' q)"
    using len \<open>k = k'\<close> list_all2_update_cong [OF ht pq] by (simp add: store_def)
qed

lemma plus_GradientPairInternal_transfer [transfer_rule]:
  assumes [transfer_rule]: "rel_fun r (rel_fun r r) (+) (+)"
  shows "rel_fun (rel_GradientPairInternal r)
           (rel_fun (rel_GradientPairInternal r) (rel_GradientPairInternal r)) (+) (+)"
  unfolding plus_GradientPairInternal_def [abs_def]
  by transfer_prover

lemma zero_GradientPairInternal_transfer [transfer_rule]:
  assumes [transfer_rule]: "r 0 0"
  shows "rel_GradientPairInternal r 0 0"
  unfolding zero_GradientPairInternal_def
  by transfer_prover

lemma flat_read_transfer [transfer_rule]:
  "rel_fun (list_all2 (rel_GradientPairInternal r)) (rel_fun (=) (rel_sum (=) r))
     flat_read flat_read"
proof (intro rel_funI)
  fix h t and k k' :: nat
  assume ht: "list_all2 (rel_GradientPairInternal r) h t" and "k = k'"
  have len: "length h = length t" using ht by (rule list_all2_lengthD)
  have "rel_GradientPairInternal r (h ! (k div 2)) (t ! (k div 2))" if "k div 2 < length h"
    using ht that by (rule list_all2_nthD)
  then show "rel_sum (=) r (flat_read h k) (flat_read t k')"
    using len \<open>k = k'\<close>
    by (auto simp add: flat_read_def GradientPairInternal.rel_sel)
qed

lemma flat_write_rel:
  assumes ht: "list_all2 (rel_GradientPairInternal r) h t" and pq: "r p q"
  shows "rel_sum (=) (list_all2 (rel_GradientPairInternal r)) (flat_write h k p) (flat_write t k q)"
proof (cases "k div 2 < length h")
  case True
  have len: "length h = length t" using ht by (rule list_all2_lengthD)
  have nth: "rel_GradientPairInternal r (h ! (k div 2)) (t ! (k div 2))"
    using ht True by (rule list_all2_nthD)
  show ?thesis
  proof (cases "even k")
    case even: True
    from nth pq have "rel_GradientPairInternal r
        (GradientPairInternal p (GetHess (h ! (k div 2))))
        (GradientPairInternal q (GetHess (t ! (k div 2))))"
      by (simp add: GradientPairInternal.rel_sel)
    from list_all2_update_cong [OF ht this, of "k div 2"] True len even
    show ?thesis by (simp add: flat_write_def)
  next
    case odd: False
    from nth pq have "rel_GradientPairInternal r
        (GradientPairInternal (GetGrad (h ! (k div 2))) p)
        (GradientPairInternal (GetGrad (t ! (k div 2))) q)"
      by (simp add: GradientPairInternal.rel_sel)
    from list_all2_update_cong [OF ht this, of "k div 2"] True len odd
    show ?thesis by (simp add: flat_write_def)
  qed
next
  case False
  moreover have "length h = length t" using ht by (rule list_all2_lengthD)
  ultimately show ?thesis by (simp add: flat_write_def)
qed

lemma flat_write_transfer [transfer_rule]:
  "rel_fun (list_all2 (rel_GradientPairInternal r)) (rel_fun (=) (rel_fun r
     (rel_sum (=) (list_all2 (rel_GradientPairInternal r))))) flat_write flat_write"
  by (auto simp add: rel_fun_def intro: flat_write_rel)

lemma flat_add_transfer [transfer_rule]:
  assumes [transfer_rule]: "rel_fun r (rel_fun r r) (+) (+)"
  shows "rel_fun (list_all2 (rel_GradientPairInternal r)) (rel_fun (=) (rel_fun r
     (rel_sum (=) (list_all2 (rel_GradientPairInternal r))))) flat_add flat_add"
  unfolding flat_add_def by transfer_prover

lemma flat_fill_transfer [transfer_rule]:
  "rel_fun (list_all2 (rel_GradientPairInternal r)) (rel_fun r (rel_fun (=)
     (rel_sum (=) (list_all2 (rel_GradientPairInternal r))))) flat_fill flat_fill"
  unfolding flat_fill_def by transfer_prover

lemma fill_transfer [transfer_rule]:
  "rel_fun (list_all2 R) (rel_fun R (rel_fun (=) (rel_sum (=) (list_all2 R)))) fill fill"
  unfolding fill_def by transfer_prover

lemma pgh_flat_transfer [transfer_rule]:
  "rel_fun (rel_fun (=) (rel_GradientPairInternal r)) (rel_fun (=) r) pgh_flat pgh_flat"
  unfolding pgh_flat_def by transfer_prover

lemma ReduceHist_transfer [transfer_rule]:
  assumes [transfer_rule]: "rel_fun R (rel_fun R R) (+) (+)" "R 0 0"
  shows "rel_fun (list_all2 R) (rel_fun (list_all2 R) (rel_fun (=) (rel_fun (=)
           (rel_sum (=) (list_all2 R))))) ReduceHist ReduceHist"
  unfolding ReduceHist_def by transfer_prover

lemma buffer_item_transfer [transfer_rule]:
  assumes [transfer_rule]: "rel_fun r (rel_fun r r) (+) (+)"
  shows "rel_fun (=)
     (rel_fun (=)
     (rel_fun (rel_fun (=) (rel_GradientPairInternal r))
     (rel_fun (=)
     (rel_fun (=)
     (rel_fun (=)
     (rel_fun (=)
     (rel_fun (=)
     (rel_fun (list_all2 (rel_GradientPairInternal r))
     (rel_sum (=) (list_all2 (rel_GradientPairInternal r)))))))))))
     BuildHistKernel_buffer_item BuildHistKernel_buffer_item"
  unfolding BuildHistKernel_buffer_item_def
  by transfer_prover

lemma BuildHistKernel_buffer_transfer:
  assumes [transfer_rule]: "rel_fun r (rel_fun r r) (+) (+)" "r 0 0"
  shows "rel_fun (=)
     (rel_fun (=)
     (rel_fun (rel_fun (=) (rel_GradientPairInternal r))
     (rel_fun (=)
     (rel_fun (=)
     (rel_fun (list_all2 (rel_GradientPairInternal r))
     (rel_fun (list_all2 (rel_GradientPairInternal r))
     (rel_fun (=)
     (rel_sum (=) (rel_prod (list_all2 (rel_GradientPairInternal r)) (list_all2 (rel_GradientPairInternal r)))))))))))
     BuildHistKernel_buffer BuildHistKernel_buffer"
  unfolding BuildHistKernel_buffer_def
  by transfer_prover

lemma local_feature_transfer [transfer_rule]:
  assumes [transfer_rule]: "rel_fun r (rel_fun r r) (+) (+)" "r 0 0"
  shows "rel_fun (=)
     (rel_fun (rel_fun (=) (rel_GradientPairInternal r))
     (rel_fun (=)
     (rel_fun (=)
     (rel_fun (=)
     (rel_fun (=)
     (rel_fun (=)
     (rel_fun (rel_prod (list_all2 (rel_GradientPairInternal r)) (list_all2 (rel_GradientPairInternal r)))
     (rel_sum (=) (rel_prod (list_all2 (rel_GradientPairInternal r)) (list_all2 (rel_GradientPairInternal r)))))))))))
     BuildHistKernelLocal_feature BuildHistKernelLocal_feature"
  unfolding BuildHistKernelLocal_feature_def
  by transfer_prover

lemma local_item_transfer [transfer_rule]:
  assumes [transfer_rule]: "rel_fun r (rel_fun r r) (+) (+)" "r 0 0"
  shows "rel_fun (=)
     (rel_fun (rel_fun (=) (rel_GradientPairInternal r))
     (rel_fun (=)
     (rel_fun (rel_fun (=) (rel_GradientPairInternal r))
     (rel_fun (=)
     (rel_fun (=)
     (rel_fun (=)
     (rel_fun (=)
     (rel_fun (=)
     (rel_fun (list_all2 (rel_GradientPairInternal r))
     (rel_sum (=) (list_all2 (rel_GradientPairInternal r))))))))))))
     BuildHistKernelLocal_item BuildHistKernelLocal_item"
  unfolding BuildHistKernelLocal_item_def
  by transfer_prover

lemma BuildHistKernelLocal_transfer:
  assumes [transfer_rule]: "rel_fun r (rel_fun r r) (+) (+)" "r 0 0"
  shows "rel_fun (=)
     (rel_fun (rel_fun (=) (rel_GradientPairInternal r))
     (rel_fun (=)
     (rel_fun (rel_fun (=) (rel_GradientPairInternal r))
     (rel_fun (=)
     (rel_fun (=)
     (rel_fun (list_all2 (rel_GradientPairInternal r))
     (rel_fun (list_all2 (rel_GradientPairInternal r))
     (rel_fun (=)
     (rel_sum (=) (rel_prod (list_all2 (rel_GradientPairInternal r)) (list_all2 (rel_GradientPairInternal r))))))))))))
     BuildHistKernelLocal BuildHistKernelLocal"
  unfolding BuildHistKernelLocal_def
  by transfer_prover

lemma atomic_item_transfer [transfer_rule]:
  assumes [transfer_rule]: "rel_fun r (rel_fun r r) (+) (+)"
  shows "rel_fun (=)
     (rel_fun (=)
     (rel_fun (rel_fun (=) (rel_GradientPairInternal r))
     (rel_fun (=)
     (rel_fun (=)
     (rel_fun (=)
     (rel_fun (=)
     (rel_fun (=)
     (rel_fun (=)
     (rel_fun (list_all2 (rel_GradientPairInternal r))
     (rel_sum (=) (list_all2 (rel_GradientPairInternal r))))))))))))
     BuildHistKernel_atomic_item BuildHistKernel_atomic_item"
  unfolding BuildHistKernel_atomic_item_def
  by transfer_prover


section \<open>Histogram storage and scratch, for any additions\<close>

lemma is_known_simps:
  "is_known (Known v) d" "is_known t Undefined" "\<not> is_known Unknown Defined"
  "is_known (Known v) 0" "\<not> is_known Unknown 0"
  by (simp_all add: is_known_def zero_defined_def split: defined.splits)

lemma equals_known_simps:
  "equals_known x (Known v) \<longleftrightarrow> x = v" "equals_known x Unknown"
  by (simp_all add: equals_known_def)

lemma is_known_transfer:
  "rel_fun is_known (rel_fun is_known is_known) (+) (+)" "is_known 0 0"
  by (auto simp add: rel_fun_def is_known_def plus_known_def plus_defined_def zero_known_def
      split: known.splits defined.splits)

lemma equals_known_transfer:
  "rel_fun equals_known (rel_fun equals_known equals_known) (+) (+)" "equals_known 0 0"
  by (auto simp add: rel_fun_def equals_known_def plus_known_def zero_known_def
      split: known.splits defined.splits)

lemma always_transfer:
  "rel_fun (\<lambda>x d. True) (rel_fun (\<lambda>x d. True) (\<lambda>x d. True)) (+) (+)" "(\<lambda>x d. True) 0 0"
  by (simp_all add: rel_fun_def)

lemma BuildHistKernel_buffer_returns:
  fixes pgh :: "nat \<Rightarrow> 'a::{zero,plus} GradientPairInternal"
  assumes "block_nblocks d * nbins gmat \<le> length buf" "nbins gmat \<le> length hist"
  shows "\<exists>r. BuildHistKernel_buffer isDense bt pgh rid gmat hist buf d = Inr r"
proof -
  let ?R = "rel_GradientPairInternal (\<lambda>(x :: 'a) (d :: defined). True)"
  have any: "list_all2 ?R xs (replicate (length xs) 0)" for xs
    by (simp add: list_all2_conv_all_nth GradientPairInternal.rel_sel)
  have pgh: "rel_fun (=) ?R pgh (\<lambda>r. 0)"
    by (simp add: rel_fun_def GradientPairInternal.rel_sel)
  note t = BuildHistKernel_buffer_transfer [OF always_transfer]
  have "rel_sum (=) (rel_prod (list_all2 ?R) (list_all2 ?R))
      (BuildHistKernel_buffer isDense bt pgh rid gmat hist buf d)
      (BuildHistKernel_buffer isDense bt (\<lambda>r. 0) rid gmat (replicate (length hist) 0)
         (replicate (length buf) 0) d)"
    by (rule t [THEN rel_funD, OF refl, THEN rel_funD, OF refl,
          THEN rel_funD, OF pgh, THEN rel_funD, OF refl,
          THEN rel_funD, OF refl, THEN rel_funD, OF any,
          THEN rel_funD, OF any, THEN rel_funD, OF refl])
  moreover have "\<exists>r. BuildHistKernel_buffer isDense bt (\<lambda>r. 0 :: defined GradientPairInternal) rid
      gmat (replicate (length hist) 0) (replicate (length buf) 0) d = Inr r"
    using BuildHistKernel_buffer_run [of d gmat "replicate (length buf) 0"
        "replicate (length hist) 0" isDense bt "\<lambda>r. 0 :: defined GradientPairInternal" rid] assms
    by auto
  ultimately show ?thesis
    by (cases "BuildHistKernel_buffer isDense bt pgh rid gmat hist buf d") auto
qed

lemma BuildHistKernelLocal_returns:
  fixes pgh :: "nat \<Rightarrow> 'a::{zero,plus} GradientPairInternal"
  assumes "cut_ptrs_wf gmat" "dense_bins_wf bt rid gmat" "local_hist_fits kMax gmat"
    and "block_nblocks d * nbins gmat \<le> length buf" "nbins gmat \<le> length hist"
  shows "\<exists>r. BuildHistKernelLocal kMax uninit bt pgh rid gmat hist buf d = Inr r"
proof -
  let ?R = "rel_GradientPairInternal (\<lambda>(x :: 'a) (d :: defined). True)"
  have any: "list_all2 ?R xs (replicate (length xs) 0)" for xs
    by (simp add: list_all2_conv_all_nth GradientPairInternal.rel_sel)
  have pgh: "rel_fun (=) ?R f (\<lambda>r. 0)" for f
    by (simp add: rel_fun_def GradientPairInternal.rel_sel)
  note t = BuildHistKernelLocal_transfer [OF always_transfer]
  have "rel_sum (=) (rel_prod (list_all2 ?R) (list_all2 ?R))
      (BuildHistKernelLocal kMax uninit bt pgh rid gmat hist buf d)
      (BuildHistKernelLocal kMax (\<lambda>r. 0) bt (\<lambda>r. 0) rid gmat (replicate (length hist) 0)
         (replicate (length buf) 0) d)"
    by (rule t [THEN rel_funD, OF refl, THEN rel_funD, OF pgh, THEN rel_funD, OF refl,
          THEN rel_funD, OF pgh, THEN rel_funD, OF refl,
          THEN rel_funD, OF refl, THEN rel_funD, OF any,
          THEN rel_funD, OF any, THEN rel_funD, OF refl])
  moreover have "\<exists>r. BuildHistKernelLocal kMax (\<lambda>r. 0) bt
      (\<lambda>r. 0 :: defined GradientPairInternal) rid
      gmat (replicate (length hist) 0) (replicate (length buf) 0) d = Inr r"
    using BuildHistKernelLocal_run [OF assms(1,2,3), of d "replicate (length buf) 0"
        "replicate (length hist) 0" "\<lambda>r. 0" "\<lambda>r. 0 :: defined GradientPairInternal"] assms(4,5)
    by auto
  ultimately show ?thesis
    by (cases "BuildHistKernelLocal kMax uninit bt pgh rid gmat hist buf d") auto
qed


lemma block_spec_zero:
  "block_spec isDense bt (\<lambda>r. 0 :: 'b::comm_monoid_add) rid gmat bs B b = 0"
  by (simp add: block_spec_def if_distrib [where f = "\<lambda>x. x"] cong: if_cong)

lemma equals_known_same:
  assumes "list_all2 (rel_GradientPairInternal equals_known) h1 hK"
    and "list_all2 (rel_GradientPairInternal equals_known) h2 hK"
    and "list_all2 (rel_GradientPairInternal is_known) hK (replicate n 0)"
  shows "h1 = h2"
proof (rule nth_equalityI)
  have len: "length h1 = length hK" "length h2 = length hK" "length hK = n"
    using assms by (auto dest: list_all2_lengthD)
  then show "length h1 = length h2" by simp
  fix k assume "k < length h1"
  then have k: "k < length hK" "k < n" using len by simp_all
  have "rel_GradientPairInternal is_known (hK ! k) 0"
    using list_all2_nthD [OF assms(3), of k] k by simp
  then obtain g s where hK: "hK ! k = GradientPairInternal (Known g) (Known s)"
    by (cases "hK ! k")
      (auto simp add: zero_GradientPairInternal_def is_known_def zero_defined_def
        split: known.splits)
  have "rel_GradientPairInternal equals_known (h1 ! k) (hK ! k)"
    "rel_GradientPairInternal equals_known (h2 ! k) (hK ! k)"
    using list_all2_nthD [OF assms(1), of k] list_all2_nthD [OF assms(2), of k] k len by simp_all
  then show "h1 ! k = h2 ! k"
    unfolding hK by (cases "h1 ! k"; cases "h2 ! k") (simp add: equals_known_def)
qed

lemma BuildHistKernelLocal_same:
  fixes pgh :: "nat \<Rightarrow> 'a::{zero,plus} GradientPairInternal"
  assumes wf: "cut_ptrs_wf gmat" "dense_bins_wf bt rid gmat" "local_hist_fits kMax gmat"
    and d: "0 < work_group_size d"
    and buf: "block_nblocks d * nbins gmat \<le> length buf1" "length buf2 = length buf1"
    and hist: "nbins gmat \<le> length hist"
  shows "\<exists>h b1 b2.
           BuildHistKernelLocal kMax uninit1 bt pgh rid gmat hist buf1 d = Inr (h, b1) \<and>
           BuildHistKernelLocal kMax uninit2 bt pgh rid gmat hist buf2 d = Inr (h, b2)"
proof -
  let ?E = "rel_GradientPairInternal (equals_known :: 'a \<Rightarrow> 'a known \<Rightarrow> bool)"
  let ?K = "rel_GradientPairInternal (is_known :: 'a known \<Rightarrow> defined \<Rightarrow> bool)"
  let ?unknown = "GradientPairInternal Unknown Unknown :: 'a known GradientPairInternal"
  let ?undef = "GradientPairInternal Undefined Undefined"
  let ?kpgh = "\<lambda>r. GradientPairInternal (Known (GetGrad (pgh r))) (Known (GetHess (pgh r)))"
  let ?khist = "map (\<lambda>p. GradientPairInternal (Known (GetGrad p)) (Known (GetHess p))) hist"
  let ?kbuf = "replicate (length buf1) ?unknown"
  let ?dhist = "replicate (length hist) (0 :: defined GradientPairInternal)"
  let ?dbuf = "replicate (length buf1) ?undef"
  let ?runK = "BuildHistKernelLocal kMax (\<lambda>k. ?unknown) bt ?kpgh rid gmat ?khist ?kbuf d"
  let ?runD = "BuildHistKernelLocal kMax (\<lambda>k. ?undef) bt
                 (\<lambda>r. 0 :: defined GradientPairInternal) rid gmat ?dhist ?dbuf d"
  \<comment> \<open>the run that only records which cells have been assigned\<close>
  from BuildHistKernelLocal_run [OF wf, of d ?dbuf ?dhist "\<lambda>k. ?undef"
      "\<lambda>r. 0 :: defined GradientPairInternal"] buf(1) hist d
  obtain bD where runD: "?runD =
        Inr (map (\<lambda>b. \<Sum>B < block_nblocks d. bD ! (B * nbins gmat + b)) [0..<nbins gmat]
               @ drop (nbins gmat) ?dhist, bD)"
    and val: "\<forall>B < block_nblocks d. \<forall>b < nbins gmat. bD ! (B * nbins gmat + b) = 0"
    unfolding block_spec_zero by auto
  have "map (\<lambda>b. \<Sum>B < block_nblocks d. bD ! (B * nbins gmat + b)) [0..<nbins gmat] =
      replicate (nbins gmat) 0"
    using val by (intro nth_equalityI) simp_all
  with runD hist have runD': "?runD = Inr (replicate (length hist) 0, bD)"
    by (simp add: replicate_add [symmetric])
  \<comment> \<open>the run on known and unknown numbers\<close>
  have kpgh: "rel_fun (=) ?K ?kpgh (\<lambda>r. 0)"
    by (simp add: rel_fun_def is_known_simps zero_GradientPairInternal_def)
  have kun: "rel_fun (=) ?K (\<lambda>k. ?unknown) (\<lambda>k. ?undef)"
    by (simp add: rel_fun_def is_known_simps)
  have khist: "list_all2 ?K ?khist ?dhist"
    by (simp add: list_all2_conv_all_nth is_known_simps zero_GradientPairInternal_def)
  have kbuf: "list_all2 ?K ?kbuf ?dbuf"
    by (simp add: list_all2_conv_all_nth is_known_simps)
  note t2 = BuildHistKernelLocal_transfer [OF is_known_transfer]
  have "rel_sum (=) (rel_prod (list_all2 ?K) (list_all2 ?K)) ?runK ?runD"
    by (rule t2 [THEN rel_funD, OF refl, THEN rel_funD, OF kun, THEN rel_funD, OF refl,
          THEN rel_funD, OF kpgh, THEN rel_funD, OF refl,
          THEN rel_funD, OF refl, THEN rel_funD, OF khist,
          THEN rel_funD, OF kbuf, THEN rel_funD, OF refl])
  with runD' obtain hK bK where runK: "?runK = Inr (hK, bK)"
    and hK: "list_all2 ?K hK (replicate (length hist) 0)"
    by (cases ?runK) auto
  \<comment> \<open>the two runs of the kernel\<close>
  have pgh: "rel_fun (=) ?E pgh ?kpgh"
    by (simp add: rel_fun_def equals_known_simps GradientPairInternal.rel_sel)
  have un: "rel_fun (=) ?E u (\<lambda>k. ?unknown)" for u
    by (simp add: rel_fun_def equals_known_simps GradientPairInternal.rel_sel)
  have ehist: "list_all2 ?E hist ?khist"
    by (simp add: list_all2_conv_all_nth equals_known_simps GradientPairInternal.rel_sel)
  have ebuf: "list_all2 ?E buf1 ?kbuf" "list_all2 ?E buf2 ?kbuf"
    using buf(2)
    by (simp_all add: list_all2_conv_all_nth equals_known_simps GradientPairInternal.rel_sel)
  note t1 = BuildHistKernelLocal_transfer [OF equals_known_transfer]
  have "rel_sum (=) (rel_prod (list_all2 ?E) (list_all2 ?E))
      (BuildHistKernelLocal kMax uninit1 bt pgh rid gmat hist buf1 d) ?runK"
    by (rule t1 [THEN rel_funD, OF refl, THEN rel_funD, OF un, THEN rel_funD, OF refl,
          THEN rel_funD, OF pgh, THEN rel_funD, OF refl,
          THEN rel_funD, OF refl, THEN rel_funD, OF ehist,
          THEN rel_funD, OF ebuf(1), THEN rel_funD, OF refl])
  with runK obtain h1 b1 where
    run1: "BuildHistKernelLocal kMax uninit1 bt pgh rid gmat hist buf1 d = Inr (h1, b1)"
    and h1: "list_all2 ?E h1 hK"
    by (cases "BuildHistKernelLocal kMax uninit1 bt pgh rid gmat hist buf1 d") auto
  have "rel_sum (=) (rel_prod (list_all2 ?E) (list_all2 ?E))
      (BuildHistKernelLocal kMax uninit2 bt pgh rid gmat hist buf2 d) ?runK"
    by (rule t1 [THEN rel_funD, OF refl, THEN rel_funD, OF un, THEN rel_funD, OF refl,
          THEN rel_funD, OF pgh, THEN rel_funD, OF refl,
          THEN rel_funD, OF refl, THEN rel_funD, OF ehist,
          THEN rel_funD, OF ebuf(2), THEN rel_funD, OF refl])
  with runK obtain h2 b2 where
    run2: "BuildHistKernelLocal kMax uninit2 bt pgh rid gmat hist buf2 d = Inr (h2, b2)"
    and h2: "list_all2 ?E h2 hK"
    by (cases "BuildHistKernelLocal kMax uninit2 bt pgh rid gmat hist buf2 d") auto
  from equals_known_same [OF h1 h2 hK] run1 run2 show ?thesis by blast
qed

text \<open>
  Claim C9.  No access of the kernels to histogram storage is out of bounds: the buffered
  kernel (scratch of at least \<open>nblocks * nbins\<close> pairs, histogram of at least \<open>nbins\<close>) and
  the atomic kernel never fail with an access outside the allocation, for any content of
  the matrix, since they accumulate only below \<open>nbins\<close>; and the local kernel does not
  fail when the matrix is well formed, every stored feature-local bin is below its
  feature's bin count and \<open>max_num_bins \<le> kMaxNumBins\<close>.
\<close>

theorem kernel_writes_in_bounds:
  fixes pgh :: "nat \<Rightarrow> 'a::{zero,plus} GradientPairInternal"
  shows "(block_nblocks d * nbins gmat \<le> length hist_buffer \<and> nbins gmat \<le> length hist \<longrightarrow>
            (\<exists>r. BuildHistKernel_buffer isDense bt pgh rid gmat hist hist_buffer d = Inr r)) \<and>
         (nbins gmat \<le> length hist \<longrightarrow>
            BuildHistKernel_atomic isDense bt pgh rid gmat hist d \<noteq> Inl OutOfBounds) \<and>
         (cut_ptrs_wf gmat \<and> dense_bins_wf bt rid gmat \<and> local_hist_fits kMaxNumBins gmat \<and>
          block_nblocks d * nbins gmat \<le> length hist_buffer \<and> nbins gmat \<le> length hist \<longrightarrow>
            (\<exists>r. BuildHistKernelLocal kMaxNumBins uninit bt pgh rid gmat hist hist_buffer d
                    = Inr r))"
proof (intro conjI impI)
  assume "block_nblocks d * nbins gmat \<le> length hist_buffer \<and> nbins gmat \<le> length hist"
  then show "\<exists>r. BuildHistKernel_buffer isDense bt pgh rid gmat hist hist_buffer d = Inr r"
    using BuildHistKernel_buffer_returns [of d gmat hist_buffer hist isDense bt pgh rid] by blast
next
  assume h: "nbins gmat \<le> length hist"
  show "BuildHistKernel_atomic isDense bt pgh rid gmat hist d \<noteq> Inl OutOfBounds"
    by (rule BuildHistKernel_atomic_in_bounds [OF h])
next
  assume "cut_ptrs_wf gmat \<and> dense_bins_wf bt rid gmat \<and> local_hist_fits kMaxNumBins gmat \<and>
          block_nblocks d * nbins gmat \<le> length hist_buffer \<and> nbins gmat \<le> length hist"
  then show "\<exists>r. BuildHistKernelLocal kMaxNumBins uninit bt pgh rid gmat hist hist_buffer d = Inr r"
    using BuildHistKernelLocal_returns [of gmat bt rid kMaxNumBins d hist_buffer hist uninit pgh]
    by blast
qed

theorem kernel_writes_in_bounds_witness:
  "(\<exists>r. BuildHistKernel_buffer True kUint8BinsTypeSize example_gpair [0, 1] example_gmat
          (replicate 4 0) (replicate 8 (GradientPairInternal 9 9)) example_dispatcher = Inr r) \<and>
   BuildHistKernel_atomic True kUint8BinsTypeSize example_gpair [0, 1] example_gmat
     (replicate 4 0) example_dispatcher \<noteq> Inl OutOfBounds \<and>
   (\<exists>r. BuildHistKernelLocal 2 example_gpair kUint8BinsTypeSize example_gpair [0, 1] example_gmat
          (replicate 4 0) (replicate 8 (GradientPairInternal 9 9)) example_dispatcher = Inr r)"
proof -
  have h: "block_nblocks example_dispatcher * nbins example_gmat
       \<le> length (replicate 8 (GradientPairInternal (9 :: int) 9))"
    "nbins example_gmat \<le> length (replicate 4 (0 :: int GradientPairInternal))"
    by (simp_all add: example_dispatcher_def example_gmat_def)
  show ?thesis
    using kernel_writes_in_bounds [of example_dispatcher example_gmat
        "replicate 8 (GradientPairInternal (9 :: int) 9)" "replicate 4 0" True
        kUint8BinsTypeSize example_gpair "[0, 1]" 2 example_gpair] h example_wf
    by blast
qed

text \<open>
  Claim C10.  \<open>BuildHistKernelLocal\<close> followed by \<open>ReduceHist\<close> gives the same histogram
  for any two initial contents of the scratch (and of the uninitialised \<open>hist_fast\<close>):
  every cell of the scratch that \<open>ReduceHist\<close> reads has been assigned before.
\<close>

theorem local_kernel_ignores_scratch:
  fixes pgh :: "nat \<Rightarrow> 'a::{zero,plus} GradientPairInternal"
  assumes "cut_ptrs_wf gmat" "dense_bins_wf bt rid gmat" "local_hist_fits kMaxNumBins gmat"
    and "0 < work_group_size d"
    and "block_nblocks d * nbins gmat \<le> length buf1" "length buf2 = length buf1"
    and "nbins gmat \<le> length hist"
  shows "\<exists>h b1 b2.
           BuildHistKernelLocal kMaxNumBins uninit1 bt pgh rid gmat hist buf1 d = Inr (h, b1) \<and>
           BuildHistKernelLocal kMaxNumBins uninit2 bt pgh rid gmat hist buf2 d = Inr (h, b2)"
  by (rule BuildHistKernelLocal_same [OF assms])

theorem local_kernel_ignores_scratch_witness:
  "\<exists>h b1 b2.
     BuildHistKernelLocal 2 example_gpair kUint8BinsTypeSize example_gpair [0, 1] example_gmat
       (replicate 4 0) (replicate 8 (GradientPairInternal 9 9)) example_dispatcher = Inr (h, b1) \<and>
     BuildHistKernelLocal 2 (\<lambda>k. 0) kUint8BinsTypeSize example_gpair [0, 1] example_gmat
       (replicate 4 0) (replicate 8 0) example_dispatcher = Inr (h, b2)"
proof -
  have h: "0 < work_group_size example_dispatcher"
    "block_nblocks example_dispatcher * nbins example_gmat
       \<le> length (replicate 8 (GradientPairInternal (9 :: int) 9))"
    "length (replicate 8 (0 :: int GradientPairInternal))
       = length (replicate 8 (GradientPairInternal (9 :: int) 9))"
    "nbins example_gmat \<le> length (replicate 4 (0 :: int GradientPairInternal))"
    by (simp_all add: example_dispatcher_def example_gmat_def)
  show ?thesis
    by (rule local_kernel_ignores_scratch [OF example_wf h])
qed

section \<open>Sums of rounding additions\<close>











section \<open>The built histograms, up to rounding\<close>














section \<open>An example that rounds\<close>

















section \<open>Kernel selection and bin width\<close>

text \<open>
  Claim C6.  \<open>BuildHistDispatchKernel\<close> runs the atomic kernel exactly when the
  dispatcher reports \<open>use_atomics\<close> or \<open>force_atomic_use\<close> is set; otherwise it runs the
  kernel with local private bins exactly when the input is dense and the dispatcher
  reports \<open>use_local_hist\<close>, and the plain buffered kernel in all remaining cases.  The
  result of the call is the result of that kernel, run with the dispatcher that
  \<open>BuildHistDispatchKernel\<close> has constructed.
\<close>

theorem BuildHistDispatchKernel_policy:
  assumes "nbins gmat \<noteq> 0"
  shows
    "(let d = make_dispatcher device_prop isDense (length rid)
                (length hist_buffer div nbins gmat) (nbins gmat) (n_columns isDense gmat)
                (max_num_bins gmat) (min_num_bins gmat);
          call = BuildHistDispatchKernel_select bt isDense d force_atomic_use
      in BuildHistDispatchKernel make_dispatcher kMaxNumBins uninit bt pgh rid gmat hist isDense
           hist_buffer device_prop force_atomic_use =
           (if use_atomics d \<or> force_atomic_use then
              (case BuildHistKernel_atomic isDense
                      (if isDense then bt else kUint32BinsTypeSize) pgh rid gmat hist d of
                 Inl e \<Rightarrow> Inl e
               | Inr h \<Rightarrow> Inr (h, hist_buffer))
            else if isDense \<and> use_local_hist d then
              BuildHistKernelLocal kMaxNumBins uninit bt pgh rid gmat hist hist_buffer d
            else
              BuildHistKernel_buffer isDense (if isDense then bt else kUint32BinsTypeSize)
                pgh rid gmat hist hist_buffer d) \<and>
         BuildHistDispatchKernel make_dispatcher kMaxNumBins uninit bt pgh rid gmat hist isDense
           hist_buffer device_prop force_atomic_use =
           run_kernel_call kMaxNumBins uninit call pgh rid gmat hist hist_buffer d \<and>
         (is_CallAtomic call \<longleftrightarrow> use_atomics d \<or> force_atomic_use) \<and>
         (is_CallLocal call \<longleftrightarrow>
            \<not> (use_atomics d \<or> force_atomic_use) \<and> isDense \<and> use_local_hist d) \<and>
         (is_CallBuffer call \<longleftrightarrow>
            \<not> (use_atomics d \<or> force_atomic_use) \<and> \<not> (isDense \<and> use_local_hist d)))"
  using assms
  by (simp add: BuildHistDispatchKernel_def BuildHistDispatchKernel_select_def Let_def)

theorem BuildHistDispatchKernel_policy_witness:
  "BuildHistDispatchKernel (\<lambda>dp dense n_rows max_n_blocks n_bins n_cols mx mn. example_dispatcher)
     2 example_gpair kUint8BinsTypeSize example_gpair [0, 1] example_gmat (replicate 4 0) True
     (replicate 8 0) () True =
     Inr ([GradientPairInternal 1 2, GradientPairInternal 3 4,
           GradientPairInternal 3 4, GradientPairInternal 1 2], replicate 8 0) \<and>
   BuildHistDispatchKernel (\<lambda>dp dense n_rows max_n_blocks n_bins n_cols mx mn. example_dispatcher)
     2 example_gpair kUint8BinsTypeSize example_gpair [0, 1] example_gmat (replicate 4 0) True
     (replicate 8 0) () False =
     BuildHistKernelLocal 2 example_gpair kUint8BinsTypeSize example_gpair [0, 1] example_gmat
       (replicate 4 0) (replicate 8 0) example_dispatcher"
proof -
  have n: "nbins example_gmat \<noteq> 0" by (simp add: example_gmat_def)
  have d: "use_local_hist example_dispatcher" "\<not> use_atomics example_dispatcher"
    by (simp_all add: example_dispatcher_def)
  from BuildHistDispatchKernel_policy [OF n,
      where make_dispatcher = "\<lambda>dp dense n_rows max_n_blocks n_bins n_cols mx mn. example_dispatcher"
        and isDense = True and force_atomic_use = True and kMaxNumBins = 2
        and uninit = example_gpair and bt = kUint8BinsTypeSize and pgh = example_gpair
        and rid = "[0, 1]" and hist = "replicate 4 0" and hist_buffer = "replicate 8 0"
        and device_prop = "()"]
  have "BuildHistDispatchKernel
      (\<lambda>dp dense n_rows max_n_blocks n_bins n_cols mx mn. example_dispatcher)
      2 example_gpair kUint8BinsTypeSize example_gpair [0, 1] example_gmat (replicate 4 0) True
      (replicate 8 0) () True =
      (case BuildHistKernel_atomic True kUint8BinsTypeSize example_gpair [0, 1] example_gmat
              (replicate 4 0) example_dispatcher of
         Inl e \<Rightarrow> Inl e
       | Inr h \<Rightarrow> Inr (h, replicate 8 0))"
    by (simp add: Let_def)
  then have atomic: "BuildHistDispatchKernel
      (\<lambda>dp dense n_rows max_n_blocks n_bins n_cols mx mn. example_dispatcher)
      2 example_gpair kUint8BinsTypeSize example_gpair [0, 1] example_gmat (replicate 4 0) True
      (replicate 8 0) () True =
      Inr ([GradientPairInternal 1 2, GradientPairInternal 3 4,
            GradientPairInternal 3 4, GradientPairInternal 1 2], replicate 8 0)"
    unfolding example_atomic by simp
  from BuildHistDispatchKernel_policy [OF n,
      where make_dispatcher = "\<lambda>dp dense n_rows max_n_blocks n_bins n_cols mx mn. example_dispatcher"
        and isDense = True and force_atomic_use = False and kMaxNumBins = 2
        and uninit = example_gpair and bt = kUint8BinsTypeSize and pgh = example_gpair
        and rid = "[0, 1]" and hist = "replicate 4 0" and hist_buffer = "replicate 8 0"
        and device_prop = "()"] d
  have "BuildHistDispatchKernel
      (\<lambda>dp dense n_rows max_n_blocks n_bins n_cols mx mn. example_dispatcher)
      2 example_gpair kUint8BinsTypeSize example_gpair [0, 1] example_gmat (replicate 4 0) True
      (replicate 8 0) () False =
      BuildHistKernelLocal 2 example_gpair kUint8BinsTypeSize example_gpair [0, 1] example_gmat
        (replicate 4 0) (replicate 8 0) example_dispatcher"
    by (simp add: Let_def)
  with atomic show ?thesis by simp
qed

lemma n_columns_ignores_GetBinTypeSize:
  "n_columns isDense (gmat\<lparr>GetBinTypeSize := b\<rparr>) = n_columns isDense gmat"
  by (simp add: n_columns_def)

lemma bin_index_ignores_GetBinTypeSize:
  "bin_index isDense bt (gmat\<lparr>GetBinTypeSize := b\<rparr>) = bin_index isDense bt gmat"
  by (simp add: bin_index_def fun_eq_iff cong: if_cong)

lemma buffer_item_ignores_GetBinTypeSize:
  "BuildHistKernel_buffer_item isDense bt pgh rid (gmat\<lparr>GetBinTypeSize := b\<rparr>) d block feat =
   BuildHistKernel_buffer_item isDense bt pgh rid gmat d block feat"
  unfolding BuildHistKernel_buffer_item_def n_columns_ignores_GetBinTypeSize
    bin_index_ignores_GetBinTypeSize
  by (simp add: Let_def cong: if_cong sum.case_cong)

lemma local_feature_ignores_GetBinTypeSize:
  "BuildHistKernelLocal_feature bt pgh rid (gmat\<lparr>GetBinTypeSize := b\<rparr>) d block =
   BuildHistKernelLocal_feature bt pgh rid gmat d block"
  unfolding BuildHistKernelLocal_feature_def fun_eq_iff
  by (simp add: Let_def cong: if_cong sum.case_cong prod.case_cong)

lemma local_item_ignores_GetBinTypeSize:
  "BuildHistKernelLocal_item k u bt pgh rid (gmat\<lparr>GetBinTypeSize := b\<rparr>) d block feat =
   BuildHistKernelLocal_item k u bt pgh rid gmat d block feat"
  unfolding BuildHistKernelLocal_item_def local_feature_ignores_GetBinTypeSize
  by simp

lemma atomic_item_ignores_GetBinTypeSize:
  "BuildHistKernel_atomic_item isDense bt pgh rid (gmat\<lparr>GetBinTypeSize := b\<rparr>) w i g l =
   BuildHistKernel_atomic_item isDense bt pgh rid gmat w i g l"
  unfolding BuildHistKernel_atomic_item_def n_columns_ignores_GetBinTypeSize
    bin_index_ignores_GetBinTypeSize
  by (simp add: Let_def cong: if_cong sum.case_cong)

lemma kernels_ignore_GetBinTypeSize:
  "run_kernel_call k u c pgh rid (gmat\<lparr>GetBinTypeSize := b\<rparr>) hist buf d =
   run_kernel_call k u c pgh rid gmat hist buf d"
proof (cases c)
  case (CallBuffer bt isDense)
  then show ?thesis
    unfolding CallBuffer run_kernel_call.simps BuildHistKernel_buffer_def
      buffer_item_ignores_GetBinTypeSize
    by (simp add: Let_def cong: if_cong sum.case_cong)
next
  case (CallLocal bt)
  then show ?thesis
    unfolding CallLocal run_kernel_call.simps BuildHistKernelLocal_def
      local_item_ignores_GetBinTypeSize
    by (simp add: Let_def cong: if_cong sum.case_cong)
next
  case (CallAtomic bt isDense)
  then show ?thesis
    unfolding CallAtomic run_kernel_call.simps BuildHistKernel_atomic_def
      atomic_item_ignores_GetBinTypeSize n_columns_ignores_GetBinTypeSize
    by (simp add: Let_def cong: if_cong sum.case_cong)
qed

text \<open>
  Claim C7.  With \<open>isDense\<close> false, \<open>BuildHistDispatchKernel\<close> runs the atomic or the
  buffered kernel with \<^verbatim>\<open>uint32_t\<close> as its \<open>BinIdxType\<close>, whatever \<open>BinIdxType\<close> the switch
  over the stored bin width chose: the kernel reads every bin index from the 32-bit view of
  the index.  So the result of the sparse path is the same for every declared bin width.
\<close>

theorem sparse_path_reads_uint32:
  "BuildHistDispatchKernel mk k u bt pgh rid gmat hist False buf dp force_atomic_use =
     (if nbins gmat = 0 then Inl DivideByZero
      else
        let d = mk dp False (length rid) (length buf div nbins gmat) (nbins gmat)
                  (row_stride gmat) (max_num_bins gmat) (min_num_bins gmat)
        in if use_atomics d \<or> force_atomic_use then
             (case BuildHistKernel_atomic False kUint32BinsTypeSize pgh rid gmat hist d of
                Inl e \<Rightarrow> Inl e
              | Inr h \<Rightarrow> Inr (h, buf))
           else BuildHistKernel_buffer False kUint32BinsTypeSize pgh rid gmat hist buf d) \<and>
   bin_index False kUint32BinsTypeSize gmat icol_start j =
     index_data gmat kUint32BinsTypeSize (icol_start + j) \<and>
   BuildHistDispatchKernel mk k u bt pgh rid gmat hist False buf dp force_atomic_use =
   BuildHistDispatchKernel mk k u bt' pgh rid gmat hist False buf dp force_atomic_use \<and>
   BuildHistKernel mk k u pgh rid (gmat\<lparr>GetBinTypeSize := bt\<rparr>) False hist buf dp force_atomic_use =
   BuildHistKernel mk k u pgh rid (gmat\<lparr>GetBinTypeSize := bt'\<rparr>) False hist buf dp force_atomic_use"
proof -
  have sel: "BuildHistDispatchKernel_select b False d' f =
     (if use_atomics d' \<or> f then CallAtomic kUint32BinsTypeSize False
      else CallBuffer kUint32BinsTypeSize False)" for b d' f
    by (simp add: BuildHistDispatchKernel_select_def)
  have run: "BuildHistDispatchKernel mk k u b pgh rid gmat hist False buf dp force_atomic_use =
     (if nbins gmat = 0 then Inl DivideByZero
      else
        let d = mk dp False (length rid) (length buf div nbins gmat) (nbins gmat)
                  (row_stride gmat) (max_num_bins gmat) (min_num_bins gmat)
        in if use_atomics d \<or> force_atomic_use then
             (case BuildHistKernel_atomic False kUint32BinsTypeSize pgh rid gmat hist d of
                Inl e \<Rightarrow> Inl e
              | Inr h \<Rightarrow> Inr (h, buf))
           else BuildHistKernel_buffer False kUint32BinsTypeSize pgh rid gmat hist buf d)" for b
    unfolding BuildHistDispatchKernel_def sel by (simp add: Let_def n_columns_def)
  have disp: "BuildHistDispatchKernel mk k u b pgh rid g hist False buf dp force_atomic_use =
   BuildHistDispatchKernel mk k u b' pgh rid g hist False buf dp force_atomic_use" for b b' g
    unfolding BuildHistDispatchKernel_def sel by simp
  have ign: "BuildHistDispatchKernel mk k u b pgh rid (g\<lparr>GetBinTypeSize := c\<rparr>) hist False buf dp
       force_atomic_use =
    BuildHistDispatchKernel mk k u b pgh rid g hist False buf dp force_atomic_use" for b c g
    unfolding BuildHistDispatchKernel_def
    by (simp add: kernels_ignore_GetBinTypeSize n_columns_def Let_def)
  have top: "BuildHistKernel mk k u pgh rid (gmat\<lparr>GetBinTypeSize := b\<rparr>) False hist buf dp
       force_atomic_use =
     BuildHistDispatchKernel mk k u kUint32BinsTypeSize pgh rid gmat hist False buf dp
       force_atomic_use" for b
    unfolding BuildHistKernel_def
    by (cases b)
      (simp_all add: ign disp [where b = kUint8BinsTypeSize and b' = kUint32BinsTypeSize]
        disp [where b = kUint16BinsTypeSize and b' = kUint32BinsTypeSize])
  have rd: "bin_index False kUint32BinsTypeSize gmat icol_start j =
     index_data gmat kUint32BinsTypeSize (icol_start + j)"
    by (simp add: bin_index_def)
  show ?thesis
    unfolding top by (intro conjI run rd disp refl)
qed

end
